theory Spec2Isabelle
  imports Main
begin

section \<open>The buffer pool of buf.go: data model\<close>

text \<open>
  The Go program works on heap objects reached through pointers: a \<open>*Pool[T]\<close> owns a
  channel of \<open>*Buffer[T]\<close>, and every Buffer points back to its pool. The model keeps an
  explicit store for both kinds of object. An address is an index into the store; a new
  object is appended, so its address is fresh, and nothing is ever freed (Go's collector
  only removes what cannot be reached). An address outside the store plays the part of
  the nil pointer: dereferencing it panics.

  The model is sequential: one operation runs to its end before the next one starts. The
  mutex \<open>mu\<close> is locked and unlocked (by \<open>defer\<close>, so also when the holder panics)
  inside one operation; it is free between operations and is left out. Atomic loads and
  compare-and-swaps become plain reads and conditional writes.

  \<open>BufferChan\<close> starts a goroutine that receives Buffers from the free list and marks
  them in use. The store records that the goroutine was started (\<open>streams\<close>); its
  receives are not steps of the model. What is proved about who owns a Buffer over a
  sequence of calls is therefore stated for stores and sequences without such a
  goroutine.

  \<open>make\<close> panics when the requested length is beyond a bound of the Go runtime: for a
  channel of pointers, when \<open>n\<close> times the pointer size exceeds \<open>maxAlloc\<close> minus the
  channel header; for a slice of \<open>T\<close>, when \<open>n\<close> times the size of \<open>T\<close> exceeds
  \<open>maxAlloc\<close>. The two bounds depend on the platform and on \<open>T\<close>; they are parameters
  of the model, carried in the store as \<open>maxChan\<close> and \<open>maxSlice\<close> and changed by no
  operation. Below the bounds an allocation succeeds (memory is not exhausted).

  Go's \<open>int\<close> and \<open>int32\<close> are modelled by \<open>int\<close>: the program compares and copies these
  values and increments only loop counters that stay below \<open>bufCount\<close>, so no operation
  can overflow.
\<close>

type_synonym bref = nat
type_synonym pref = nat

text \<open>\<open>type Buffer[T any] struct { data []T; length int; pool *Pool[T]; inUse int32 }\<close>.
  The slice \<open>data\<close> is made once by \<open>make([]T, bufSize)\<close> and never resliced, so its
  capacity is its length. The field \<open>length\<close> is called \<open>lengthB\<close> here.\<close>

record 'a Buffer =
  data :: "'a list"
  lengthB :: int
  pool :: "pref option"
  inUse :: int

text \<open>A buffered channel of Buffer pointers: the queued elements (the head is received
  next), the capacity given to \<open>make\<close>, and whether \<open>close\<close> was called.\<close>

record chan =
  items :: "bref list"
  ccap :: nat
  closed :: bool

text \<open>\<open>type Pool[T any] struct { buffers chan *Buffer[T]; bufSize int; bufCount int;
  isInitialized bool; isReleased int32; mu sync.Mutex }\<close>. The channel field is \<open>None\<close>
  while it is the nil channel.\<close>

record Pool =
  buffers :: "chan option"
  bufSize :: int
  bufCount :: int
  isInitialized :: bool
  isReleased :: int

record 'a state =
  pools :: "Pool list"
  bufs :: "'a Buffer list"
  streams :: "pref list"
  maxChan :: int
  maxSlice :: int

text \<open>How an operation can fail to return: a panic with its message, or a goroutine
  that blocks for ever on a channel nobody else will serve.\<close>

datatype error = Panic string | Blocked

type_synonym ('r, 'a) res = "(error + 'r) \<times> 'a state"

definition nil_deref :: error where
  "nil_deref = Panic ''invalid memory address or nil pointer dereference''"

definition get_pool :: "'a state \<Rightarrow> pref \<Rightarrow> Pool option" where
  "get_pool s p = (if p < length (pools s) then Some (pools s ! p) else None)"

definition get_buf :: "'a state \<Rightarrow> bref \<Rightarrow> 'a Buffer option" where
  "get_buf s b = (if b < length (bufs s) then Some (bufs s ! b) else None)"

definition set_pool :: "pref \<Rightarrow> Pool \<Rightarrow> 'a state \<Rightarrow> 'a state" where
  "set_pool p P s = s\<lparr>pools := (pools s)[p := P]\<rparr>"

definition set_buf :: "bref \<Rightarrow> 'a Buffer \<Rightarrow> 'a state \<Rightarrow> 'a state" where
  "set_buf b B s = s\<lparr>bufs := (bufs s)[b := B]\<rparr>"

text \<open>The store before any call, on a platform with the given bounds.\<close>

definition start_state :: "int \<Rightarrow> int \<Rightarrow> 'a state" where
  "start_state mc ms = \<lparr>pools = [], bufs = [], streams = [], maxChan = mc, maxSlice = ms\<rparr>"

text \<open>The empty store with bounds as on linux/amd64 (\<open>maxAlloc = 2^48\<close>, 8-byte
  pointers, a channel header of 96 bytes) for an element type of 8 bytes such as
  \<open>int\<close>. It is the store of the worked examples, whose sizes are far from the bounds;
  the general statements are about any bounds.\<close>

definition empty_state :: "'a state" where
  "empty_state = start_state (2 ^ 45 - 12) (2 ^ 45)"

subsection \<open>Channels\<close>

text \<open>\<open>make(chan *Buffer[T], n)\<close> on a platform whose bound for such a channel is \<open>mc\<close>.\<close>

definition make_chan :: "int \<Rightarrow> int \<Rightarrow> error + chan" where
  "make_chan mc n =
     (if n < 0 \<or> mc < n then Inl (Panic ''makechan: size out of range'')
      else Inr \<lparr>items = [], ccap = nat n, closed = False\<rparr>)"

text \<open>\<open>len(ch)\<close>; the nil channel has length 0.\<close>

definition chan_len :: "chan option \<Rightarrow> int" where
  "chan_len ch = (case ch of None \<Rightarrow> 0 | Some c \<Rightarrow> int (length (items c)))"

text \<open>The blocking send \<open>ch <- b\<close>. On the nil channel and on a full channel it blocks;
  in the sequential model nobody will receive, so it blocks for ever. On a closed channel
  it panics.\<close>

definition chan_send :: "chan option \<Rightarrow> bref \<Rightarrow> error + chan" where
  "chan_send ch b =
     (case ch of
        None \<Rightarrow> Inl Blocked
      | Some c \<Rightarrow>
          if closed c then Inl (Panic ''send on closed channel'')
          else if length (items c) < ccap c then Inr (c\<lparr>items := items c @ [b]\<rparr>)
          else Inl Blocked)"

text \<open>The send of \<open>select { case ch <- b: ... default: ... }\<close>: \<open>Inr None\<close> is the
  default branch (nil or full channel), \<open>Inr (Some c)\<close> the channel after the send.\<close>

definition chan_try_send :: "chan option \<Rightarrow> bref \<Rightarrow> error + chan option" where
  "chan_try_send ch b =
     (case ch of
        None \<Rightarrow> Inr None
      | Some c \<Rightarrow>
          if closed c then Inl (Panic ''send on closed channel'')
          else if length (items c) < ccap c then Inr (Some (c\<lparr>items := items c @ [b]\<rparr>))
          else Inr None)"

text \<open>The loop \<open>for len(ch) > 0 { <-ch }\<close> of Reset and Release, on the queue.\<close>

fun drain :: "bref list \<Rightarrow> bref list" where
  "drain [] = []"
| "drain (b # bs) = drain bs"

definition drain_chan :: "chan option \<Rightarrow> chan option" where
  "drain_chan ch = (case ch of None \<Rightarrow> None | Some c \<Rightarrow> Some (c\<lparr>items := drain (items c)\<rparr>))"

text \<open>\<open>close(ch)\<close>.\<close>

definition chan_close :: "chan option \<Rightarrow> error + chan" where
  "chan_close ch =
     (case ch of
        None \<Rightarrow> Inl (Panic ''close of nil channel'')
      | Some c \<Rightarrow>
          if closed c then Inl (Panic ''close of closed channel'')
          else Inr (c\<lparr>closed := True\<rparr>))"

subsection \<open>Buffer\<close>

text \<open>\<open>func (b *Buffer[T]) SetLength(len int)\<close>.\<close>

definition SetLength :: "bref \<Rightarrow> int \<Rightarrow> 'a state \<Rightarrow> (unit, 'a) res" where
  "SetLength b len s =
     (case get_buf s b of
        None \<Rightarrow> (Inl nil_deref, s)
      | Some B \<Rightarrow>
          let len' = (if len > int (length (data B)) then int (length (data B)) else len)
          in (Inr (), set_buf b (B\<lparr>lengthB := len'\<rparr>) s))"

text \<open>\<open>func (b *Buffer[T]) GetLength() int\<close>.\<close>

definition GetLength :: "bref \<Rightarrow> 'a state \<Rightarrow> (int, 'a) res" where
  "GetLength b s =
     (case get_buf s b of
        None \<Rightarrow> (Inl nil_deref, s)
      | Some B \<Rightarrow> (Inr (lengthB B), s))"

text \<open>\<open>func (b *Buffer[T]) GetValidData() []T\<close>: the slice expression \<open>b.data[:b.length]\<close>
  panics unless \<open>0 <= length <= cap(data)\<close>.\<close>

definition GetValidData :: "bref \<Rightarrow> 'a state \<Rightarrow> ('a list, 'a) res" where
  "GetValidData b s =
     (case get_buf s b of
        None \<Rightarrow> (Inl nil_deref, s)
      | Some B \<Rightarrow>
          if 0 \<le> lengthB B \<and> lengthB B \<le> int (length (data B))
          then (Inr (take (nat (lengthB B)) (data B)), s)
          else (Inl (Panic ''slice bounds out of range''), s))"

text \<open>\<open>func (b *Buffer[T]) GetFullData() []T\<close>.\<close>

definition GetFullData :: "bref \<Rightarrow> 'a state \<Rightarrow> ('a list, 'a) res" where
  "GetFullData b s =
     (case get_buf s b of
        None \<Rightarrow> (Inl nil_deref, s)
      | Some B \<Rightarrow> (Inr (data B), s))"

text \<open>\<open>atomic.CompareAndSwapInt32(&b.inUse, old, new)\<close>.\<close>

definition cas_inUse :: "bref \<Rightarrow> int \<Rightarrow> int \<Rightarrow> 'a state \<Rightarrow> (bool, 'a) res" where
  "cas_inUse b old new s =
     (case get_buf s b of
        None \<Rightarrow> (Inl nil_deref, s)
      | Some B \<Rightarrow>
          if inUse B = old then (Inr True, set_buf b (B\<lparr>inUse := new\<rparr>) s)
          else (Inr False, s))"

subsection \<open>Pool\<close>

text \<open>\<open>func NewPool[T any]() *Pool[T]\<close>: a new pool object with zero fields.\<close>

definition NewPool :: "'a state \<Rightarrow> (pref, 'a) res" where
  "NewPool s =
     (Inr (length (pools s)),
      s\<lparr>pools := pools s @
          [\<lparr>buffers = None, bufSize = 0, bufCount = 0, isInitialized = False, isReleased = 0\<rparr>]\<rparr>)"

text \<open>\<open>func (p *Pool[T]) put(b *Buffer[T])\<close>.\<close>

definition put :: "pref \<Rightarrow> bref \<Rightarrow> 'a state \<Rightarrow> (unit, 'a) res" where
  "put p b s =
     (case get_pool s p of
        None \<Rightarrow> (Inl nil_deref, s)
      | Some P \<Rightarrow>
          if isReleased P = 1 then (Inr (), s)
          else
            (case get_buf s b of
               None \<Rightarrow> (Inl nil_deref, s)
             | Some B \<Rightarrow>
                 if inUse B = 0 then
                   (case chan_try_send (buffers P) b of
                      Inl e \<Rightarrow> (Inl e, s)
                    | Inr (Some c) \<Rightarrow> (Inr (), set_pool p (P\<lparr>buffers := Some c\<rparr>) s)
                    | Inr None \<Rightarrow> (Inl (Panic ''Attempting to return a buffer to a full pool''), s))
                 else (Inl (Panic ''Attempting to return a buffer that is still in use''), s)))"

text \<open>\<open>func (b *Buffer[T]) Release()\<close>. A nil \<open>b.pool\<close> makes \<open>put\<close> dereference nil.\<close>

definition Release :: "bref \<Rightarrow> 'a state \<Rightarrow> (unit, 'a) res" where
  "Release b s =
     (case cas_inUse b 1 0 s of
        (Inl e, s1) \<Rightarrow> (Inl e, s1)
      | (Inr True, s1) \<Rightarrow>
          (case SetLength b 0 s1 of
             (Inl e, s2) \<Rightarrow> (Inl e, s2)
           | (Inr u, s2) \<Rightarrow>
               (case get_buf s2 b of
                  None \<Rightarrow> (Inl nil_deref, s2)
                | Some B \<Rightarrow>
                    (case pool B of
                       None \<Rightarrow> (Inl nil_deref, s2)
                     | Some p \<Rightarrow> put p b s2)))
      | (Inr False, s1) \<Rightarrow> (Inl (Panic ''Buffer already released or was never acquired''), s1))"

text \<open>The struct value \<open>Buffer[T]{data: make([]T, bufSize), length: 0, pool: p, inUse: 0}\<close>;
  \<open>make\<close> fills the slice with the zero value of \<open>T\<close>.\<close>

definition fresh_Buffer :: "int \<Rightarrow> pref \<Rightarrow> 'a::zero Buffer" where
  "fresh_Buffer sz p = \<lparr>data = replicate (nat sz) 0, lengthB = 0, pool = Some p, inUse = 0\<rparr>"

text \<open>The expression \<open>&Buffer[T]{...}\<close>: the new Buffer gets the next free address.
  \<open>make\<close> panics on a negative length and on one beyond the bound for slices.\<close>

definition new_Buffer :: "int \<Rightarrow> pref \<Rightarrow> 'a::zero state \<Rightarrow> (bref, 'a) res" where
  "new_Buffer sz p s =
     (if sz < 0 \<or> maxSlice s < sz then (Inl (Panic ''makeslice: len out of range''), s)
      else (Inr (length (bufs s)), s\<lparr>bufs := bufs s @ [fresh_Buffer sz p]\<rparr>))"

text \<open>The statement \<open>p.buffers <- b\<close>.\<close>

definition send_buffers :: "pref \<Rightarrow> bref \<Rightarrow> 'a state \<Rightarrow> (unit, 'a) res" where
  "send_buffers p b s =
     (case get_pool s p of
        None \<Rightarrow> (Inl nil_deref, s)
      | Some P \<Rightarrow>
          (case chan_send (buffers P) b of
             Inl e \<Rightarrow> (Inl e, s)
           | Inr c \<Rightarrow> (Inr (), set_pool p (P\<lparr>buffers := Some c\<rparr>) s)))"

text \<open>The loop \<open>for i := 0; i < n; i++ { p.buffers <- &Buffer[T]{...} }\<close> that Init runs
  with \<open>n = bufCount\<close> and its argument \<open>bufSize\<close>, and Reset with \<open>n = p.bufCount\<close> and
  \<open>p.bufSize\<close> (neither field changes while the loop runs). The function is the loop
  from counter value \<open>i\<close> on.\<close>

function fill :: "pref \<Rightarrow> int \<Rightarrow> int \<Rightarrow> int \<Rightarrow> 'a::zero state \<Rightarrow> (unit, 'a) res" where
  "fill p i n sz s =
     (if i < n then
        (case new_Buffer sz p s of
           (Inl e, s1) \<Rightarrow> (Inl e, s1)
         | (Inr b, s1) \<Rightarrow>
             (case send_buffers p b s1 of
                (Inl e, s2) \<Rightarrow> (Inl e, s2)
              | (Inr u, s2) \<Rightarrow> fill p (i + 1) n sz s2))
      else (Inr (), s))"
  by pat_completeness auto
termination
  by (relation "measure (\<lambda>(p, i, n, sz, s). nat (n - i))") auto

declare fill.simps [simp del]

text \<open>\<open>func (p *Pool[T]) Init(bufCount, bufSize int) error\<close>. The result \<open>None\<close> is the
  nil error, \<open>Some msg\<close> the error made by \<open>fmt.Errorf(msg)\<close>. The fields \<open>bufCount\<close>
  and \<open>bufSize\<close> are written before \<open>make\<close> is called for the channel, so a panic of
  that \<open>make\<close> leaves them changed and the old channel in place.\<close>

definition Init :: "pref \<Rightarrow> int \<Rightarrow> int \<Rightarrow> 'a::zero state \<Rightarrow> (string option, 'a) res" where
  "Init p bufCount' bufSize' s =
     (case get_pool s p of
        None \<Rightarrow> (Inl nil_deref, s)
      | Some P \<Rightarrow>
          if isReleased P = 1 then (Inr (Some ''pool has been released''), s)
          else if bufCount' \<le> 0 \<or> bufSize' \<le> 0
          then (Inr (Some ''invalid buffer count or size''), s)
          else
            (let P1 = P\<lparr>bufCount := bufCount', bufSize := bufSize'\<rparr>
             in case make_chan (maxChan s) bufCount' of
                  Inl e \<Rightarrow> (Inl e, set_pool p P1 s)
                | Inr c \<Rightarrow>
                    (case fill p 0 bufCount' bufSize' (set_pool p (P1\<lparr>buffers := Some c\<rparr>) s) of
                       (Inl e, s2) \<Rightarrow> (Inl e, s2)
                     | (Inr u, s2) \<Rightarrow>
                         (case get_pool s2 p of
                            None \<Rightarrow> (Inl nil_deref, s2)
                          | Some P2 \<Rightarrow>
                              (Inr None, set_pool p (P2\<lparr>isInitialized := True\<rparr>) s2)))))"

text \<open>\<open>func (p *Pool[T]) BufferChan() <-chan *Buffer[T]\<close>: nil for a released pool.
  Otherwise it makes the unbuffered channel \<open>out\<close> (a \<open>make\<close> of size 0 never panics),
  starts the goroutine that ranges over \<open>p.buffers\<close> and returns \<open>out\<close>. The start of
  the goroutine is recorded in \<open>streams\<close>. From then on the goroutine may, at any time,
  receive a Buffer from the channel, set its \<open>inUse\<close> to 1 and hand it to the reader of
  \<open>out\<close>; these receives are not modelled.\<close>

definition BufferChan :: "pref \<Rightarrow> 'a state \<Rightarrow> (chan option, 'a) res" where
  "BufferChan p s =
     (case get_pool s p of
        None \<Rightarrow> (Inl nil_deref, s)
      | Some P \<Rightarrow>
          if isReleased P = 1 then (Inr None, s)
          else (Inr (Some \<lparr>items = [], ccap = 0, closed = False\<rparr>),
                s\<lparr>streams := streams s @ [p]\<rparr>))"

text \<open>\<open>func (p *Pool[T]) Acquire() (*Buffer[T], bool)\<close>. The results \<open>(nil, false)\<close> and
  \<open>(buf, true)\<close> are \<open>None\<close> and \<open>Some buf\<close>. In the \<open>select\<close>, the nil channel and the
  open empty channel are not ready, so the default branch runs; a closed empty channel is
  ready and yields the nil pointer, whose \<open>inUse\<close> the compare-and-swap then
  dereferences.\<close>

function Acquire :: "pref \<Rightarrow> 'a state \<Rightarrow> (bref option, 'a) res" where
  "Acquire p s =
     (case get_pool s p of
        None \<Rightarrow> (Inl nil_deref, s)
      | Some P \<Rightarrow>
          if isReleased P = 1 then (Inr None, s)
          else
            (case buffers P of
               None \<Rightarrow> (Inr None, s)
             | Some c \<Rightarrow>
                 (case items c of
                    [] \<Rightarrow> if closed c then (Inl nil_deref, s) else (Inr None, s)
                  | b # rest \<Rightarrow>
                      (case cas_inUse b 0 1
                              (set_pool p (P\<lparr>buffers := Some (c\<lparr>items := rest\<rparr>)\<rparr>) s) of
                         (Inl e, s2) \<Rightarrow> (Inl e, s2)
                       | (Inr True, s2) \<Rightarrow> (Inr (Some b), s2)
                       | (Inr False, s2) \<Rightarrow>
                           (case put p b s2 of
                              (Inl e, s3) \<Rightarrow> (Inl e, s3)
                            | (Inr u, s3) \<Rightarrow> Acquire p s3)))))"
  by pat_completeness auto
termination
  apply (relation "{}")
   apply simp
  apply (auto simp: cas_inUse_def put_def get_pool_def get_buf_def set_pool_def
              split: option.splits if_splits sum.splits)
  done

declare Acquire.simps [simp del]

text \<open>\<open>func (p *Pool[T]) Reset()\<close>.\<close>

definition Reset :: "pref \<Rightarrow> 'a::zero state \<Rightarrow> (unit, 'a) res" where
  "Reset p s =
     (case get_pool s p of
        None \<Rightarrow> (Inl nil_deref, s)
      | Some P \<Rightarrow>
          if isReleased P = 1 then (Inr (), s)
          else if \<not> isInitialized P then (Inr (), s)
          else
            (let s1 = set_pool p (P\<lparr>buffers := drain_chan (buffers P)\<rparr>) s
             in fill p 0 (bufCount P) (bufSize P) s1))"

text \<open>\<open>func (p *Pool[T]) Available() int\<close>.\<close>

definition Available :: "pref \<Rightarrow> 'a state \<Rightarrow> (int, 'a) res" where
  "Available p s =
     (case get_pool s p of
        None \<Rightarrow> (Inl nil_deref, s)
      | Some P \<Rightarrow>
          if isReleased P = 1 then (Inr 0, s)
          else (Inr (chan_len (buffers P)), s))"

text \<open>\<open>func (p *Pool[T]) Release()\<close>. The compare-and-swap has already stored 1 in
  \<open>isReleased\<close> when \<open>close\<close> runs, so a panic of \<open>close\<close> leaves the pool released.\<close>

definition Pool_Release :: "pref \<Rightarrow> 'a state \<Rightarrow> (unit, 'a) res" where
  "Pool_Release p s =
     (case get_pool s p of
        None \<Rightarrow> (Inl nil_deref, s)
      | Some P \<Rightarrow>
          if isReleased P = 0 then
            (let P1 = P\<lparr>isReleased := 1\<rparr>;
                 P2 = P1\<lparr>buffers := drain_chan (buffers P1)\<rparr>
             in case chan_close (buffers P2) of
                  Inl e \<Rightarrow> (Inl e, set_pool p P2 s)
                | Inr c \<Rightarrow>
                    (Inr (), set_pool p (P2\<lparr>buffers := Some c, bufCount := 0, bufSize := 0,
                                              isInitialized := False\<rparr>) s))
          else (Inr (), s))"

subsection \<open>Sequences of calls\<close>

text \<open>The calls a client of the package can make. A client that recovers from a panic
  goes on with the store as the panic left it. Writes through the slices that
  \<open>GetFullData\<close> and \<open>GetValidData\<close> return change elements of \<open>data\<close> only, which no
  operation reads; they are not calls of the model.\<close>

datatype call =
    CNewPool
  | CInit pref int int
  | CBufferChan pref
  | CAcquire pref
  | CReset pref
  | CAvailable pref
  | CPoolRelease pref
  | CSetLength bref int
  | CGetLength bref
  | CGetValidData bref
  | CGetFullData bref
  | CRelease bref

fun step :: "call \<Rightarrow> 'a::zero state \<Rightarrow> 'a state" where
  "step CNewPool s = snd (NewPool s)"
| "step (CInit p n sz) s = snd (Init p n sz s)"
| "step (CBufferChan p) s = snd (BufferChan p s)"
| "step (CAcquire p) s = snd (Acquire p s)"
| "step (CReset p) s = snd (Reset p s)"
| "step (CAvailable p) s = snd (Available p s)"
| "step (CPoolRelease p) s = snd (Pool_Release p s)"
| "step (CSetLength b n) s = snd (SetLength b n s)"
| "step (CGetLength b) s = snd (GetLength b s)"
| "step (CGetValidData b) s = snd (GetValidData b s)"
| "step (CGetFullData b) s = snd (GetFullData b s)"
| "step (CRelease b) s = snd (Release b s)"

fun run :: "call list \<Rightarrow> 'a::zero state \<Rightarrow> 'a state" where
  "run [] s = s"
| "run (c # cs) s = run cs (step c s)"

subsection \<open>Well-formed stores\<close>

text \<open>\<open>chan_basic\<close>, for the pool at \<open>p\<close>: \<open>isReleased\<close> is 0 or 1; its channel holds no
  more than its capacity (a Go channel never does); no Buffer is queued twice; every
  queued Buffer exists, is marked free and points back to this pool; only a released pool
  has a closed channel. \<open>wf_basic\<close>: this holds of every pool. Every call keeps it
  (\<open>wf_basic_run\<close> below).

  \<open>sized\<close>: an initialized pool has a channel, of capacity \<open>bufCount\<close>, and a \<open>bufSize\<close>
  that \<open>make\<close> accepts for a slice. \<open>wf_store\<close>: both hold of every pool. Every call
  keeps it unless it is an \<open>Init\<close> whose sizes are beyond the bounds of \<open>make\<close>
  (\<open>wf_run\<close> below): such an \<open>Init\<close> panics after it has overwritten \<open>bufCount\<close> and
  \<open>bufSize\<close>.\<close>

definition chan_basic :: "'a state \<Rightarrow> pref \<Rightarrow> Pool \<Rightarrow> bool" where
  "chan_basic s p P =
     ((isReleased P = 0 \<or> isReleased P = 1) \<and>
      (case buffers P of
         None \<Rightarrow> True
       | Some c \<Rightarrow>
           length (items c) \<le> ccap c \<and> distinct (items c) \<and>
           (\<forall>b \<in> set (items c).
              b < length (bufs s) \<and> inUse (bufs s ! b) = 0 \<and> pool (bufs s ! b) = Some p) \<and>
           (closed c \<longrightarrow> isReleased P = 1)))"

definition wf_basic :: "'a state \<Rightarrow> bool" where
  "wf_basic s = (\<forall>p < length (pools s). chan_basic s p (pools s ! p))"

definition sized :: "'a state \<Rightarrow> Pool \<Rightarrow> bool" where
  "sized s P =
     (isInitialized P \<longrightarrow>
        (case buffers P of
           None \<Rightarrow> False
         | Some c \<Rightarrow> ccap c = nat (bufCount P) \<and> 0 \<le> bufSize P \<and> bufSize P \<le> maxSlice s))"

definition sized_store :: "'a state \<Rightarrow> bool" where
  "sized_store s = (\<forall>p < length (pools s). sized s (pools s ! p))"

definition wf_store :: "'a state \<Rightarrow> bool" where
  "wf_store s = (wf_basic s \<and> sized_store s)"

text \<open>\<open>fits s c\<close>: if the call is an \<open>Init\<close>, its sizes are within the bounds of \<open>make\<close>.\<close>

fun fits :: "'a state \<Rightarrow> call \<Rightarrow> bool" where
  "fits s (CInit p n sz) = (n \<le> maxChan s \<and> sz \<le> maxSlice s)"
| "fits s _ = True"

subsection \<open>Stores after the loops\<close>

text \<open>The store after a successful \<open>Init p n sz\<close> from store \<open>s\<close> with pool value \<open>P\<close>.\<close>

definition after_Init :: "pref \<Rightarrow> int \<Rightarrow> int \<Rightarrow> Pool \<Rightarrow> 'a::zero state \<Rightarrow> 'a state" where
  "after_Init p n sz P s =
     s\<lparr>pools := (pools s)[p := P\<lparr>bufCount := n, bufSize := sz,
          buffers := Some \<lparr>items = [length (bufs s) ..< length (bufs s) + nat n],
                           ccap = nat n, closed = False\<rparr>,
          isInitialized := True\<rparr>],
       bufs := bufs s @ replicate (nat n) (fresh_Buffer sz p)\<rparr>"

text \<open>The store after a \<open>Reset p\<close> that refills the channel \<open>c\<close> of pool value \<open>P\<close>.\<close>

definition after_Reset :: "pref \<Rightarrow> Pool \<Rightarrow> chan \<Rightarrow> 'a::zero state \<Rightarrow> 'a state" where
  "after_Reset p P c s =
     s\<lparr>pools := (pools s)[p := P\<lparr>buffers :=
          Some (c\<lparr>items := [length (bufs s) ..< length (bufs s) + nat (bufCount P)]\<rparr>)\<rparr>],
       bufs := bufs s @ replicate (nat (bufCount P)) (fresh_Buffer (bufSize P) p)\<rparr>"

subsection \<open>Released pools\<close>

text \<open>The pool at \<open>p\<close> exists and its flag \<open>isReleased\<close> is 1.\<close>

definition released :: "'a state \<Rightarrow> pref \<Rightarrow> bool" where
  "released s p = (case get_pool s p of None \<Rightarrow> False | Some P \<Rightarrow> isReleased P = 1)"

subsection \<open>Free Buffers and re-acquisition\<close>

text \<open>\<open>hands_out c s b\<close>: the call \<open>c\<close>, made in store \<open>s\<close>, is an \<open>Acquire\<close> that returns
  Buffer \<open>b\<close>, or a \<open>BufferChan\<close> that starts a goroutine (which may hand out any free
  Buffer later). \<open>reacquired b cs s\<close>: some call of the sequence \<open>cs\<close>, run from \<open>s\<close>,
  hands out \<open>b\<close> in this sense. \<open>is_free s b\<close>: the Buffer exists and its flag \<open>inUse\<close>
  is 0. \<open>is_owned s b\<close>: it exists and its flag is 1.\<close>

fun hands_out :: "call \<Rightarrow> 'a state \<Rightarrow> bref \<Rightarrow> bool" where
  "hands_out (CAcquire p) s b = (fst (Acquire p s) = Inr (Some b))"
| "hands_out (CBufferChan p) s b = (streams (snd (BufferChan p s)) \<noteq> streams s)"
| "hands_out _ s b = False"

fun reacquired :: "bref \<Rightarrow> call list \<Rightarrow> 'a::zero state \<Rightarrow> bool" where
  "reacquired b [] s = False"
| "reacquired b (c # cs) s = (hands_out c s b \<or> reacquired b cs (step c s))"

definition is_free :: "'a state \<Rightarrow> bref \<Rightarrow> bool" where
  "is_free s b = (b < length (bufs s) \<and> inUse (bufs s ! b) = 0)"

definition is_owned :: "'a state \<Rightarrow> bref \<Rightarrow> bool" where
  "is_owned s b = (b < length (bufs s) \<and> inUse (bufs s ! b) = 1)"

subsection \<open>Valid lengths in range\<close>

text \<open>\<open>len_in_range B\<close>: the valid length of \<open>B\<close> lies between 0 and the capacity of its
  data. \<open>lens_ok s\<close>: this holds of every Buffer of the store. \<open>nonneg_call c\<close>: the call
  is not a \<open>SetLength\<close> with a negative argument.\<close>

definition len_in_range :: "'a Buffer \<Rightarrow> bool" where
  "len_in_range B = (0 \<le> lengthB B \<and> lengthB B \<le> int (length (data B)))"

definition lens_ok :: "'a state \<Rightarrow> bool" where
  "lens_ok s = (\<forall>b < length (bufs s). len_in_range (bufs s ! b))"

fun nonneg_call :: "call \<Rightarrow> bool" where
  "nonneg_call (CSetLength b n) = (0 \<le> n)"
| "nonneg_call _ = True"

section \<open>Properties of the operations\<close>

subsection \<open>Reading the store\<close>

lemma get_pool_Some: "get_pool s p = Some P \<longleftrightarrow> p < length (pools s) \<and> pools s ! p = P"
  by (auto simp: get_pool_def)

lemma get_buf_Some: "get_buf s b = Some B \<longleftrightarrow> b < length (bufs s) \<and> bufs s ! b = B"
  by (auto simp: get_buf_def)

lemma get_pool_None: "get_pool s p = None \<longleftrightarrow> \<not> p < length (pools s)"
  by (auto simp: get_pool_def)

lemma get_buf_None: "get_buf s b = None \<longleftrightarrow> \<not> b < length (bufs s)"
  by (auto simp: get_buf_def)

subsection \<open>The filling loop\<close>

lemma set_pool_same:
  "p < length (pools s) \<Longrightarrow> pools s ! p = P \<Longrightarrow> buffers P = Some c \<Longrightarrow>
   s\<lparr>pools := (pools s)[p := P\<lparr>buffers := Some c\<rparr>]\<rparr> = s"
  by (cases s, cases P) (auto simp: list_update_same_conv)

lemma fill_ok:
  "get_pool s p = Some P \<Longrightarrow> buffers P = Some c \<Longrightarrow> \<not> closed c \<Longrightarrow>
   length (items c) + nat (n - i) \<le> ccap c \<Longrightarrow> 0 \<le> sz \<Longrightarrow> sz \<le> maxSlice s \<Longrightarrow>
   fill p i n sz s =
     (Inr (),
      s\<lparr>pools := (pools s)[p := P\<lparr>buffers :=
            Some (c\<lparr>items := items c @ [length (bufs s) ..< length (bufs s) + nat (n - i)]\<rparr>)\<rparr>],
        bufs := bufs s @ replicate (nat (n - i)) (fresh_Buffer sz p)\<rparr>)"
proof (induction p i n sz s arbitrary: P c rule: fill.induct)
  case (1 p i n sz s)
  show ?case
  proof (cases "i < n")
    case False
    with 1(2,3) show ?thesis
      by (auto simp: fill.simps[of p i n sz s] get_pool_def set_pool_same split: if_splits)
  next
    case True
    let ?L = "length (bufs s)"
    let ?s1 = "s\<lparr>bufs := bufs s @ [fresh_Buffer sz p]\<rparr>"
    let ?c' = "c\<lparr>items := items c @ [?L]\<rparr>"
    let ?P' = "P\<lparr>buffers := Some ?c'\<rparr>"
    let ?s2 = "set_pool p ?P' ?s1"
    have nb: "new_Buffer sz p s = (Inr ?L, ?s1)"
      using 1(6,7) by (simp add: new_Buffer_def)
    have pv: "p < length (pools s)" "pools s ! p = P"
      using 1(2) by (auto simp: get_pool_def split: if_splits)
    have room: "length (items c) < ccap c" using True 1(5) by linarith
    have sb: "send_buffers p ?L ?s1 = (Inr (), ?s2)"
      using pv 1(3,4) room by (simp add: send_buffers_def get_pool_def chan_send_def)
    have gp: "get_pool ?s2 p = Some ?P'"
      using pv by (simp add: get_pool_def set_pool_def)
    have k: "nat (n - i) = Suc (nat (n - (i + 1)))" using True by linarith
    have IH: "fill p (i + 1) n sz ?s2 =
      (Inr (),
       ?s2\<lparr>pools := (pools ?s2)[p := ?P'\<lparr>buffers :=
            Some (?c'\<lparr>items := items ?c' @ [length (bufs ?s2) ..< length (bufs ?s2) + nat (n - (i + 1))]\<rparr>)\<rparr>],
        bufs := bufs ?s2 @ replicate (nat (n - (i + 1))) (fresh_Buffer sz p)\<rparr>)"
      using 1(1)[OF True nb[symmetric] refl sb[symmetric] refl gp _ _ _ 1(6), of ?c'] 1(4,5,7) k
      by (simp add: set_pool_def)
    have "fill p i n sz s = fill p (i + 1) n sz ?s2"
      using True nb sb by (simp add: fill.simps[of p i n sz s])
    also note IH
    finally show ?thesis
      by (simp add: set_pool_def k upt_conv_Cons replicate_app_Cons_same)
  qed
qed

text \<open>Every run of the loop is a sequence of two kinds of steps: a Buffer is allocated and
  sent into the open channel of the pool, which has room for it; or a Buffer is allocated
  and the loop stops there (the send panics or blocks). A relation that is reflexive,
  transitive and holds across both kinds of steps holds across the loop.\<close>

lemma fill_rel:
  fixes s :: "'a::zero state"
  assumes refl: "\<And>s. R s s"
    and trans: "\<And>s t u. R s t \<Longrightarrow> R t u \<Longrightarrow> R s u"
    and alloc: "\<And>s. R s (s\<lparr>bufs := bufs s @ [fresh_Buffer sz p]\<rparr>)"
    and sent: "\<And>s P c. get_pool s p = Some P \<Longrightarrow> buffers P = Some c \<Longrightarrow> \<not> closed c \<Longrightarrow>
        length (items c) < ccap c \<Longrightarrow>
        R s (set_pool p (P\<lparr>buffers := Some (c\<lparr>items := items c @ [length (bufs s)]\<rparr>)\<rparr>)
               (s\<lparr>bufs := bufs s @ [fresh_Buffer sz p]\<rparr>))"
  shows "R s (snd (fill p i n sz s))"
  using assms
proof (induction p i n sz s rule: fill.induct)
  case (1 p i n sz s)
  note refl = "1.prems"(1) and trans = "1.prems"(2) and alloc = "1.prems"(3)
    and sent = "1.prems"(4)
  show ?case
  proof (cases "i < n \<and> \<not> (sz < 0 \<or> maxSlice s < sz)")
    case False
    then show ?thesis by (auto simp: fill.simps[of p i n sz s] new_Buffer_def refl)
  next
    case True
    let ?L = "length (bufs s)"
    let ?s1 = "s\<lparr>bufs := bufs s @ [fresh_Buffer sz p]\<rparr>"
    have nb: "new_Buffer sz p s = (Inr ?L, ?s1)"
      using True by (simp add: new_Buffer_def)
    obtain r s2 where sb: "send_buffers p ?L ?s1 = (r, s2)"
      by (cases "send_buffers p ?L ?s1") auto
    show ?thesis
    proof (cases r)
      case (Inl e)
      then have "s2 = ?s1"
        using sb by (auto simp: send_buffers_def split: option.splits sum.splits)
      then have "snd (fill p i n sz s) = ?s1"
        using True nb sb Inl by (simp add: fill.simps[of p i n sz s])
      then show ?thesis using alloc[of s] by simp
    next
      case (Inr u)
      from sb Inr obtain P c where pc: "get_pool s p = Some P" "buffers P = Some c"
        "\<not> closed c" "length (items c) < ccap c"
        and s2: "s2 = set_pool p (P\<lparr>buffers := Some (c\<lparr>items := items c @ [?L]\<rparr>)\<rparr>) ?s1"
        by (auto simp: send_buffers_def chan_send_def get_pool_def
                 split: option.splits sum.splits if_splits)
      have a: "R s s2" unfolding s2 by (rule sent[OF pc])
      have b: "R s2 (snd (fill p (i + 1) n sz s2))"
      proof -
        have lt: "i < n" using True by simp
        have r: "r = Inr u" by (rule Inr)
        show ?thesis
          by (rule "1.IH"[OF lt nb[symmetric] HOL.refl sb[symmetric] r refl trans alloc sent])
      qed
      have "snd (fill p i n sz s) = snd (fill p (i + 1) n sz s2)"
        using True nb sb Inr by (simp add: fill.simps[of p i n sz s])
      then show ?thesis using trans[OF a b] by simp
    qed
  qed
qed

lemma fill_frame:
  fixes s :: "'a::zero state"
  shows "length (pools (snd (fill p i n sz s))) = length (pools s) \<and>
         streams (snd (fill p i n sz s)) = streams s \<and>
         maxChan (snd (fill p i n sz s)) = maxChan s \<and>
         maxSlice (snd (fill p i n sz s)) = maxSlice s"
  by (rule fill_rel[where R = "\<lambda>s t. length (pools t) = length (pools s) \<and>
          streams t = streams s \<and> maxChan t = maxChan s \<and> maxSlice t = maxSlice s"])
     (simp_all add: set_pool_def)

lemma bufs_fill:
  fixes s :: "'a::zero state"
  shows "\<exists>k. bufs (snd (fill p i n sz s)) = bufs s @ replicate k (fresh_Buffer sz p)"
proof (rule fill_rel[where R = "\<lambda>s t. \<exists>k. bufs t = bufs s @ replicate k (fresh_Buffer sz p)"])
  fix s :: "'a state"
  show "\<exists>k. bufs s = bufs s @ replicate k (fresh_Buffer sz p)"
    by (rule exI[of _ 0]) simp
  show "\<exists>k. bufs (s\<lparr>bufs := bufs s @ [fresh_Buffer sz p]\<rparr>) =
             bufs s @ replicate k (fresh_Buffer sz p)"
    by (rule exI[of _ 1]) simp
next
  fix s t u :: "'a state"
  assume "\<exists>k. bufs t = bufs s @ replicate k (fresh_Buffer sz p)"
    "\<exists>k. bufs u = bufs t @ replicate k (fresh_Buffer sz p)"
  then obtain k l where "bufs u = bufs s @ replicate (k + l) (fresh_Buffer sz p)"
    by (auto simp: replicate_add)
  then show "\<exists>k. bufs u = bufs s @ replicate k (fresh_Buffer sz p)" by blast
next
  fix s :: "'a state" and P c
  show "\<exists>k. bufs (set_pool p (P\<lparr>buffers := Some (c\<lparr>items := items c @ [length (bufs s)]\<rparr>)\<rparr>)
                    (s\<lparr>bufs := bufs s @ [fresh_Buffer sz p]\<rparr>)) =
             bufs s @ replicate k (fresh_Buffer sz p)"
    by (rule exI[of _ 1]) (simp add: set_pool_def)
qed

subsection \<open>Acquire and Release by cases\<close>

lemma Acquire_released:
  "get_pool s p = Some P \<Longrightarrow> isReleased P = 1 \<Longrightarrow> Acquire p s = (Inr None, s)"
  by (simp add: Acquire.simps[of p s])

lemma Acquire_nil_chan:
  "get_pool s p = Some P \<Longrightarrow> isReleased P \<noteq> 1 \<Longrightarrow> buffers P = None \<Longrightarrow>
   Acquire p s = (Inr None, s)"
  by (simp add: Acquire.simps[of p s])

lemma Acquire_empty:
  "get_pool s p = Some P \<Longrightarrow> isReleased P \<noteq> 1 \<Longrightarrow> buffers P = Some c \<Longrightarrow> items c = [] \<Longrightarrow>
   \<not> closed c \<Longrightarrow> Acquire p s = (Inr None, s)"
  by (simp add: Acquire.simps[of p s])

lemma Acquire_free:
  "get_pool s p = Some P \<Longrightarrow> isReleased P \<noteq> 1 \<Longrightarrow> buffers P = Some c \<Longrightarrow>
   items c = b # rest \<Longrightarrow> get_buf s b = Some B \<Longrightarrow> inUse B = 0 \<Longrightarrow>
   Acquire p s =
     (Inr (Some b),
      set_buf b (B\<lparr>inUse := 1\<rparr>) (set_pool p (P\<lparr>buffers := Some (c\<lparr>items := rest\<rparr>)\<rparr>) s))"
  by (simp add: Acquire.simps[of p s] cas_inUse_def get_buf_def set_pool_def split: if_splits)

lemma Acquire_in_use:
  "get_pool s p = Some P \<Longrightarrow> isReleased P \<noteq> 1 \<Longrightarrow> buffers P = Some c \<Longrightarrow>
   items c = b # rest \<Longrightarrow> get_buf s b = Some B \<Longrightarrow> inUse B \<noteq> 0 \<Longrightarrow>
   Acquire p s =
     (Inl (Panic ''Attempting to return a buffer that is still in use''),
      set_pool p (P\<lparr>buffers := Some (c\<lparr>items := rest\<rparr>)\<rparr>) s)"
  by (simp add: Acquire.simps[of p s] cas_inUse_def put_def get_pool_def get_buf_def set_pool_def
           split: if_splits)

lemma Release_not_owned:
  "get_buf s b = Some B \<Longrightarrow> inUse B \<noteq> 1 \<Longrightarrow>
   Release b s = (Inl (Panic ''Buffer already released or was never acquired''), s)"
  by (simp add: Release_def cas_inUse_def)

lemma Release_owned:
  "get_buf s b = Some B \<Longrightarrow> inUse B = 1 \<Longrightarrow>
   Release b s =
     (case pool B of
        None \<Rightarrow> (Inl nil_deref, set_buf b (B\<lparr>inUse := 0, lengthB := 0\<rparr>) s)
      | Some p \<Rightarrow> put p b (set_buf b (B\<lparr>inUse := 0, lengthB := 0\<rparr>) s))"
  by (simp add: Release_def cas_inUse_def SetLength_def get_buf_def set_buf_def
           split: if_splits option.splits)

lemma Acquire_nil_head:
  "get_pool s p = Some P \<Longrightarrow> isReleased P \<noteq> 1 \<Longrightarrow> buffers P = Some c \<Longrightarrow>
   items c = b # rest \<Longrightarrow> get_buf s b = None \<Longrightarrow>
   Acquire p s = (Inl nil_deref, set_pool p (P\<lparr>buffers := Some (c\<lparr>items := rest\<rparr>)\<rparr>) s)"
  by (simp add: Acquire.simps[of p s] cas_inUse_def get_buf_def set_pool_def split: if_splits)

text \<open>What a call of \<open>Acquire\<close> can do to the store, in any store: nothing; take the head of
  the queue and fail; take the head of the queue and mark it in use.\<close>

lemma Acquire_cases [case_names same popped got]:
  obtains (same) "snd (Acquire p s) = s" "\<forall>b. fst (Acquire p s) \<noteq> Inr (Some b)"
  | (popped) P c b rest e where "get_pool s p = Some P" "buffers P = Some c"
      "items c = b # rest"
      "Acquire p s = (Inl e, set_pool p (P\<lparr>buffers := Some (c\<lparr>items := rest\<rparr>)\<rparr>) s)"
  | (got) P c b rest B where "get_pool s p = Some P" "isReleased P \<noteq> 1" "buffers P = Some c"
      "items c = b # rest" "get_buf s b = Some B" "inUse B = 0"
      "Acquire p s =
         (Inr (Some b),
          set_buf b (B\<lparr>inUse := 1\<rparr>) (set_pool p (P\<lparr>buffers := Some (c\<lparr>items := rest\<rparr>)\<rparr>) s))"
proof (cases "get_pool s p")
  case None
  then show ?thesis using same by (simp add: Acquire.simps[of p s])
next
  case (Some P)
  show ?thesis
  proof (cases "isReleased P \<noteq> 1 \<and> (\<exists>c b rest. buffers P = Some c \<and> items c = b # rest)")
    case False
    then have "Acquire p s = (Inr None, s) \<or> Acquire p s = (Inl nil_deref, s)"
      using Some by (auto simp: Acquire.simps[of p s] split: option.splits list.splits)
    then show ?thesis using same by auto
  next
    case True
    then obtain c b rest where c: "buffers P = Some c" "items c = b # rest" by auto
    have nr: "isReleased P \<noteq> 1" using True by simp
    show ?thesis
    proof (cases "get_buf s b")
      case None
      show ?thesis by (rule popped[OF Some c Acquire_nil_head[OF Some nr c None]])
    next
      case B: (Some B)
      show ?thesis
      proof (cases "inUse B = 0")
        case True
        show ?thesis by (rule got[OF Some nr c B True Acquire_free[OF Some nr c B True]])
      next
        case False
        show ?thesis by (rule popped[OF Some c Acquire_in_use[OF Some nr c B False]])
      qed
    qed
  qed
qed

subsection \<open>Init and Reset in closed form\<close>

lemma Init_ok:
  assumes "get_pool s p = Some P" "isReleased P \<noteq> 1" "0 < n" "0 < sz"
    "n \<le> maxChan s" "sz \<le> maxSlice s"
  shows "Init p n sz s = (Inr None, after_Init p n sz P s)"
proof -
  let ?c = "\<lparr>items = [], ccap = nat n, closed = False\<rparr>"
  let ?P1 = "P\<lparr>bufCount := n, bufSize := sz, buffers := Some ?c\<rparr>"
  let ?s1 = "set_pool p ?P1 s"
  have pv: "p < length (pools s)" "pools s ! p = P"
    using assms(1) by (auto simp: get_pool_Some)
  have mk: "make_chan (maxChan s) n = Inr ?c" using assms(3,5) by (simp add: make_chan_def)
  have gp: "get_pool ?s1 p = Some ?P1"
    using pv by (simp add: get_pool_def set_pool_def)
  have f: "fill p 0 n sz ?s1 =
     (Inr (),
      ?s1\<lparr>pools := (pools ?s1)[p := ?P1\<lparr>buffers :=
            Some (?c\<lparr>items := items ?c @ [length (bufs ?s1) ..< length (bufs ?s1) + nat (n - 0)]\<rparr>)\<rparr>],
        bufs := bufs ?s1 @ replicate (nat (n - 0)) (fresh_Buffer sz p)\<rparr>)"
    by (rule fill_ok[OF gp]) (use assms in \<open>simp_all add: set_pool_def\<close>)
  show ?thesis
    using assms pv
    by (simp add: Init_def mk f Let_def)
      (simp add: get_pool_def set_pool_def after_Init_def)
qed

text \<open>The two ways in which \<open>Init\<close> panics on sizes beyond the bounds of \<open>make\<close>.\<close>

lemma Init_makechan_panic:
  assumes "get_pool s p = Some P" "isReleased P \<noteq> 1" "0 < n" "0 < sz" "maxChan s < n"
  shows "Init p n sz s =
           (Inl (Panic ''makechan: size out of range''),
            set_pool p (P\<lparr>bufCount := n, bufSize := sz\<rparr>) s)"
  using assms by (simp add: Init_def Let_def make_chan_def)

lemma Init_makeslice_panic:
  fixes s :: "'a::zero state"
  assumes "get_pool s p = Some P" "isReleased P \<noteq> 1" "0 < n" "0 < sz"
    "n \<le> maxChan s" "maxSlice s < sz"
  shows "Init p n sz s =
           (Inl (Panic ''makeslice: len out of range''),
            set_pool p (P\<lparr>bufCount := n, bufSize := sz,
                           buffers := Some \<lparr>items = [], ccap = nat n, closed = False\<rparr>\<rparr>) s)"
proof -
  let ?s1 = "set_pool p (P\<lparr>bufCount := n, bufSize := sz,
                           buffers := Some \<lparr>items = [], ccap = nat n, closed = False\<rparr>\<rparr>) s"
  have "fill p 0 n sz ?s1 = (Inl (Panic ''makeslice: len out of range''), ?s1)"
    using assms(3,6) by (subst fill.simps) (simp add: new_Buffer_def set_pool_def)
  then show ?thesis using assms by (simp add: Init_def Let_def make_chan_def)
qed

lemma Init_cases [case_names same chan_panic slice_panic ok]:
  fixes s :: "'a::zero state"
  obtains (same) "snd (Init p n sz s) = s"
  | (chan_panic) P where "get_pool s p = Some P" "isReleased P \<noteq> 1" "maxChan s < n"
      "snd (Init p n sz s) = set_pool p (P\<lparr>bufCount := n, bufSize := sz\<rparr>) s"
  | (slice_panic) P where "get_pool s p = Some P" "isReleased P \<noteq> 1" "maxSlice s < sz"
      "snd (Init p n sz s) =
         set_pool p (P\<lparr>bufCount := n, bufSize := sz,
                        buffers := Some \<lparr>items = [], ccap = nat n, closed = False\<rparr>\<rparr>) s"
  | (ok) P where "get_pool s p = Some P" "isReleased P \<noteq> 1" "0 < n" "0 < sz"
      "n \<le> maxChan s" "sz \<le> maxSlice s"
      "Init p n sz s = (Inr None, after_Init p n sz P s)"
proof (cases "get_pool s p")
  case None
  then show ?thesis using same by (simp add: Init_def)
next
  case (Some P)
  show ?thesis
  proof (cases "isReleased P \<noteq> 1 \<and> 0 < n \<and> 0 < sz")
    case False
    then show ?thesis using Some same by (auto simp: Init_def)
  next
    case True
    show ?thesis
    proof (cases "n \<le> maxChan s")
      case False
      then show ?thesis
        using chan_panic[OF Some] Init_makechan_panic[OF Some, of n sz] True by simp
    next
      case n: True
      show ?thesis
      proof (cases "sz \<le> maxSlice s")
        case False
        then show ?thesis
          using slice_panic[OF Some] Init_makeslice_panic[OF Some, of n sz] True n by simp
      next
        case sz: True
        show ?thesis
          by (rule ok[OF Some _ _ _ n sz Init_ok[OF Some _ _ _ n sz]]) (use True in simp_all)
      qed
    qed
  qed
qed

lemma drain_Nil [simp]: "drain xs = []"
  by (induction xs) auto

lemma Reset_ok:
  assumes "get_pool s p = Some P" "isReleased P \<noteq> 1" "isInitialized P"
    "buffers P = Some c" "\<not> closed c" "nat (bufCount P) \<le> ccap c" "0 \<le> bufSize P"
    "bufSize P \<le> maxSlice s"
  shows "Reset p s = (Inr (), after_Reset p P c s)"
proof -
  let ?c = "c\<lparr>items := []\<rparr>"
  let ?P1 = "P\<lparr>buffers := Some ?c\<rparr>"
  let ?s1 = "set_pool p ?P1 s"
  have pv: "p < length (pools s)" "pools s ! p = P"
    using assms(1) by (auto simp: get_pool_Some)
  have gp: "get_pool ?s1 p = Some ?P1"
    using pv by (simp add: get_pool_def set_pool_def)
  have f: "fill p 0 (bufCount P) (bufSize P) ?s1 =
     (Inr (),
      ?s1\<lparr>pools := (pools ?s1)[p := ?P1\<lparr>buffers :=
            Some (?c\<lparr>items := items ?c @ [length (bufs ?s1) ..< length (bufs ?s1) + nat (bufCount P - 0)]\<rparr>)\<rparr>],
        bufs := bufs ?s1 @ replicate (nat (bufCount P - 0)) (fresh_Buffer (bufSize P) p)\<rparr>)"
    by (rule fill_ok[OF gp]) (use assms in \<open>simp_all add: set_pool_def\<close>)
  show ?thesis
    using assms pv
    by (simp add: Reset_def Let_def drain_chan_def f)
      (simp add: set_pool_def after_Reset_def)
qed

text \<open>What \<open>Init\<close> and \<open>Reset\<close> do to the Buffers, in any store and whatever the outcome:
  they append fresh ones.\<close>

lemma bufs_Init:
  fixes s :: "'a::zero state"
  shows "\<exists>k. bufs (snd (Init p n sz s)) = bufs s @ replicate k (fresh_Buffer sz p)"
proof (cases rule: Init_cases[of p n sz s])
  case same
  then show ?thesis by (intro exI[of _ 0]) simp
next
  case (chan_panic P)
  then show ?thesis by (intro exI[of _ 0]) (simp add: set_pool_def)
next
  case (slice_panic P)
  then show ?thesis by (intro exI[of _ 0]) (simp add: set_pool_def)
next
  case (ok P)
  then show ?thesis by (intro exI[of _ "nat n"]) (simp add: after_Init_def)
qed

lemma bufs_Reset:
  fixes s :: "'a::zero state"
  shows "\<exists>k sz. bufs (snd (Reset p s)) = bufs s @ replicate k (fresh_Buffer sz p)"
proof (cases "get_pool s p")
  case None
  then show ?thesis by (intro exI[of _ 0]) (simp add: Reset_def)
next
  case (Some P)
  show ?thesis
  proof (cases "isReleased P \<noteq> 1 \<and> isInitialized P")
    case False
    then show ?thesis using Some by (intro exI[of _ 0]) (auto simp: Reset_def)
  next
    case True
    let ?s1 = "set_pool p (P\<lparr>buffers := drain_chan (buffers P)\<rparr>) s"
    from bufs_fill[of p 0 "bufCount P" "bufSize P" ?s1] obtain k where
      "bufs (snd (fill p 0 (bufCount P) (bufSize P) ?s1)) =
         bufs ?s1 @ replicate k (fresh_Buffer (bufSize P) p)" by blast
    then have "bufs (snd (Reset p s)) = bufs s @ replicate k (fresh_Buffer (bufSize P) p)"
      using Some True by (simp add: Reset_def Let_def set_pool_def)
    then show ?thesis by blast
  qed
qed

subsection \<open>Every call keeps the basic invariant\<close>

lemma wfb_start: "wf_basic (start_state mc ms)"
  by (simp add: wf_basic_def start_state_def)

lemma wf_basic_streams [simp]: "wf_basic (s\<lparr>streams := x\<rparr>) = wf_basic s"
  by (simp add: wf_basic_def chan_basic_def cong: option.case_cong)

lemma chan_basic_mono:
  assumes "chan_basic s p P" "length (bufs s) \<le> length (bufs s')"
    and "\<And>b c. buffers P = Some c \<Longrightarrow> b \<in> set (items c) \<Longrightarrow> b < length (bufs s) \<Longrightarrow>
           inUse (bufs s' ! b) = inUse (bufs s ! b) \<and> pool (bufs s' ! b) = pool (bufs s ! b)"
  shows "chan_basic s' p P"
  using assms unfolding chan_basic_def
  by (auto split: option.splits)

lemma wfbD: "wf_basic s \<Longrightarrow> get_pool s p = Some P \<Longrightarrow> chan_basic s p P"
  by (auto simp: wf_basic_def get_pool_Some)

lemma chan_basicD:
  assumes "chan_basic s p P" "buffers P = Some c"
  shows "length (items c) \<le> ccap c" "distinct (items c)"
    "\<And>b. b \<in> set (items c) \<Longrightarrow>
        b < length (bufs s) \<and> inUse (bufs s ! b) = 0 \<and> pool (bufs s ! b) = Some p"
    "closed c \<Longrightarrow> isReleased P = 1"
  using assms by (auto simp: chan_basic_def)

lemma chan_basic_isReleased: "chan_basic s p P \<Longrightarrow> isReleased P = 0 \<or> isReleased P = 1"
  by (simp add: chan_basic_def)

lemma queued_free:
  assumes "wf_basic s" "q < length (pools s)" "buffers (pools s ! q) = Some c" "b \<in> set (items c)"
  shows "b < length (bufs s)" "inUse (bufs s ! b) = 0" "pool (bufs s ! b) = Some q"
  using assms by (auto simp: wf_basic_def chan_basic_def split: option.splits)

lemma wfb_bufs_update:
  assumes "wf_basic s" "pools s' = pools s" "length (bufs s) \<le> length (bufs s')"
    and "\<And>b. b < length (bufs s) \<Longrightarrow> inUse (bufs s ! b) = 0 \<Longrightarrow>
           inUse (bufs s' ! b) = 0 \<and> pool (bufs s' ! b) = pool (bufs s ! b)"
  shows "wf_basic s'"
  unfolding wf_basic_def
proof (intro allI impI)
  fix p assume p: "p < length (pools s')"
  then have ok: "chan_basic s p (pools s ! p)" using assms(1,2) by (simp add: wf_basic_def)
  have "chan_basic s' p (pools s ! p)"
  proof (rule chan_basic_mono[OF ok assms(3)])
    fix b c assume "buffers (pools s ! p) = Some c" "b \<in> set (items c)" "b < length (bufs s)"
    then show "inUse (bufs s' ! b) = inUse (bufs s ! b) \<and> pool (bufs s' ! b) = pool (bufs s ! b)"
      using chan_basicD(3)[OF ok] assms(4) by auto
  qed
  then show "chan_basic s' p (pools s' ! p)" using assms(2) by simp
qed

lemma chan_basic_pools_irrelevant: "bufs s' = bufs s \<Longrightarrow> chan_basic s' p P = chan_basic s p P"
  by (simp add: chan_basic_def cong: option.case_cong)

lemma wfb_set_pool:
  assumes "wf_basic s" "chan_basic s p P'"
  shows "wf_basic (set_pool p P' s)"
  unfolding wf_basic_def
proof (intro allI impI)
  fix q assume "q < length (pools (set_pool p P' s))"
  then have q: "q < length (pools s)" by (simp add: set_pool_def)
  have b: "bufs (set_pool p P' s) = bufs s" by (simp add: set_pool_def)
  have "chan_basic s q (pools (set_pool p P' s) ! q)"
    using assms q by (cases "q = p") (simp_all add: wf_basic_def set_pool_def)
  then show "chan_basic (set_pool p P' s) q (pools (set_pool p P' s) ! q)"
    by (simp add: chan_basic_pools_irrelevant[OF b])
qed

lemma wfb_set_buf_not_queued:
  assumes "wf_basic s"
    and "\<And>q c. q < length (pools s) \<Longrightarrow> buffers (pools s ! q) = Some c \<Longrightarrow> b \<notin> set (items c)"
  shows "wf_basic (set_buf b B' s)"
  unfolding wf_basic_def
proof (intro allI impI)
  fix p assume "p < length (pools (set_buf b B' s))"
  then have p: "p < length (pools s)" by (simp add: set_buf_def)
  then have ok: "chan_basic s p (pools s ! p)" using assms(1) by (simp add: wf_basic_def)
  have "chan_basic (set_buf b B' s) p (pools s ! p)"
  proof (rule chan_basic_mono[OF ok])
    show "length (bufs s) \<le> length (bufs (set_buf b B' s))" by (simp add: set_buf_def)
  next
    fix b' c assume "buffers (pools s ! p) = Some c" "b' \<in> set (items c)" "b' < length (bufs s)"
    then have "b' \<noteq> b" using assms(2)[OF p] by auto
    then show "inUse (bufs (set_buf b B' s) ! b') = inUse (bufs s ! b') \<and>
               pool (bufs (set_buf b B' s) ! b') = pool (bufs s ! b')"
      by (simp add: set_buf_def)
  qed
  then show "chan_basic (set_buf b B' s) p (pools (set_buf b B' s) ! p)"
    by (simp add: set_buf_def)
qed

lemma wfb_NewPool: "wf_basic s \<Longrightarrow> wf_basic (snd (NewPool s))"
  unfolding wf_basic_def NewPool_def
  by (auto simp: nth_append chan_basic_def split: option.splits)

lemma wfb_alloc:
  assumes "wf_basic s"
  shows "wf_basic (s\<lparr>bufs := bufs s @ xs\<rparr>)"
  by (rule wfb_bufs_update[OF assms]) (simp_all add: nth_append)

lemma wfb_sent:
  fixes s :: "'a::zero state"
  assumes "wf_basic s" "get_pool s p = Some P" "buffers P = Some c" "\<not> closed c"
    "length (items c) < ccap c"
  shows "wf_basic (set_pool p (P\<lparr>buffers := Some (c\<lparr>items := items c @ [length (bufs s)]\<rparr>)\<rparr>)
                    (s\<lparr>bufs := bufs s @ [fresh_Buffer sz p]\<rparr>))"
proof -
  let ?s1 = "s\<lparr>bufs := bufs s @ [fresh_Buffer sz p]\<rparr>"
  have w1: "wf_basic ?s1" by (rule wfb_alloc[OF assms(1)])
  have ok: "chan_basic s p P" by (rule wfbD[OF assms(1,2)])
  have old: "b < length (bufs s) \<and> inUse (bufs s ! b) = 0 \<and> pool (bufs s ! b) = Some p"
    if "b \<in> set (items c)" for b
    using chan_basicD(3)[OF ok assms(3) that] .
  have "chan_basic ?s1 p (P\<lparr>buffers := Some (c\<lparr>items := items c @ [length (bufs s)]\<rparr>)\<rparr>)"
    using chan_basicD(1,2)[OF ok assms(3)] chan_basic_isReleased[OF ok] assms(4,5) old
    by (auto simp: chan_basic_def nth_append fresh_Buffer_def less_Suc_eq)
  then show ?thesis by (rule wfb_set_pool[OF w1])
qed

lemma wfb_fill:
  fixes s :: "'a::zero state"
  shows "wf_basic s \<Longrightarrow> wf_basic (snd (fill p i n sz s))"
proof -
  have "wf_basic s \<longrightarrow> wf_basic (snd (fill p i n sz s))"
    by (rule fill_rel[where R = "\<lambda>s t. wf_basic s \<longrightarrow> wf_basic t"])
       (auto intro: wfb_alloc wfb_sent)
  then show "wf_basic s \<Longrightarrow> wf_basic (snd (fill p i n sz s))" by simp
qed

lemma wfb_Init:
  fixes s :: "'a::zero state"
  assumes "wf_basic s"
  shows "wf_basic (snd (Init p n sz s))"
proof (cases "get_pool s p")
  case None
  then show ?thesis using assms by (simp add: Init_def)
next
  case (Some P)
  have ok: "chan_basic s p P" by (rule wfbD[OF assms Some])
  show ?thesis
  proof (cases "isReleased P \<noteq> 1 \<and> 0 < n \<and> 0 < sz")
    case False
    then show ?thesis using assms Some by (auto simp: Init_def)
  next
    case True
    let ?P1 = "P\<lparr>bufCount := n, bufSize := sz\<rparr>"
    have ok1: "chan_basic s p ?P1"
      using ok by (auto simp: chan_basic_def split: option.splits)
    show ?thesis
    proof (cases "make_chan (maxChan s) n")
      case (Inl e)
      then show ?thesis
        using Some True wfb_set_pool[OF assms ok1] by (simp add: Init_def Let_def)
    next
      case (Inr c)
      then have c: "c = \<lparr>items = [], ccap = nat n, closed = False\<rparr>"
        by (auto simp: make_chan_def split: if_splits)
      let ?s1 = "set_pool p (?P1\<lparr>buffers := Some c\<rparr>) s"
      have "chan_basic s p (?P1\<lparr>buffers := Some c\<rparr>)"
        using chan_basic_isReleased[OF ok] by (simp add: chan_basic_def c)
      then have w1: "wf_basic ?s1" by (rule wfb_set_pool[OF assms])
      obtain r s2 where f: "fill p 0 n sz ?s1 = (r, s2)"
        by (cases "fill p 0 n sz ?s1") auto
      have w2: "wf_basic s2" using wfb_fill[OF w1, of p 0 n sz] f by simp
      show ?thesis
      proof (cases "\<exists>u. r = Inr u \<and> get_pool s2 p \<noteq> None")
        case False
        then show ?thesis
          using Some True Inr f w2
          by (cases r) (auto simp: Init_def Let_def split: option.splits)
      next
        case True2: True
        then obtain P2 where P2: "get_pool s2 p = Some P2" and r: "r = Inr ()" by auto
        have "chan_basic s2 p (P2\<lparr>isInitialized := True\<rparr>)"
          using wfbD[OF w2 P2] by (auto simp: chan_basic_def split: option.splits)
        then have "wf_basic (set_pool p (P2\<lparr>isInitialized := True\<rparr>) s2)"
          by (rule wfb_set_pool[OF w2])
        then show ?thesis
          using Some True Inr f r P2 by (simp add: Init_def Let_def)
      qed
    qed
  qed
qed

lemma wfb_Reset:
  fixes s :: "'a::zero state"
  assumes "wf_basic s"
  shows "wf_basic (snd (Reset p s))"
proof (cases "get_pool s p")
  case None
  then show ?thesis using assms by (simp add: Reset_def)
next
  case (Some P)
  show ?thesis
  proof (cases "isReleased P \<noteq> 1 \<and> isInitialized P")
    case False
    then show ?thesis using assms Some by (auto simp: Reset_def)
  next
    case True
    have ok: "chan_basic s p P" by (rule wfbD[OF assms Some])
    have "chan_basic s p (P\<lparr>buffers := drain_chan (buffers P)\<rparr>)"
      using ok by (auto simp: chan_basic_def drain_chan_def split: option.splits)
    then have "wf_basic (set_pool p (P\<lparr>buffers := drain_chan (buffers P)\<rparr>) s)"
      by (rule wfb_set_pool[OF assms])
    then show ?thesis
      using Some True by (simp add: Reset_def Let_def wfb_fill)
  qed
qed

lemma wfb_SetLength:
  assumes "wf_basic s"
  shows "wf_basic (snd (SetLength b n s))"
proof (cases "get_buf s b")
  case None
  then show ?thesis using assms by (simp add: SetLength_def)
next
  case (Some B)
  then have b: "b < length (bufs s)" "bufs s ! b = B" by (auto simp: get_buf_Some)
  have "wf_basic (set_buf b (B\<lparr>lengthB := m\<rparr>) s)" for m
    by (rule wfb_bufs_update[OF assms]) (use b in \<open>auto simp: set_buf_def nth_list_update\<close>)
  then show ?thesis using Some by (simp add: SetLength_def Let_def)
qed

lemma wfb_Pool_Release:
  assumes "wf_basic s"
  shows "wf_basic (snd (Pool_Release p s))"
proof (cases "get_pool s p")
  case None
  then show ?thesis using assms by (simp add: Pool_Release_def)
next
  case (Some P)
  have ok: "chan_basic s p P" by (rule wfbD[OF assms Some])
  show ?thesis
  proof (cases "isReleased P = 0")
    case False
    then show ?thesis using assms Some by (simp add: Pool_Release_def)
  next
    case True
    show ?thesis
    proof (cases "buffers P")
      case None
      have "chan_basic s p (P\<lparr>isReleased := 1, buffers := None\<rparr>)"
        by (simp add: chan_basic_def)
      then show ?thesis
        using Some True None assms
        by (simp add: Pool_Release_def Let_def drain_chan_def chan_close_def wfb_set_pool)
    next
      case (Some c)
      have nc: "\<not> closed c" using chan_basicD(4)[OF ok Some] True by auto
      have "chan_basic s p (P\<lparr>isReleased := 1, buffers := Some (c\<lparr>items := [], closed := True\<rparr>),
                bufCount := 0, bufSize := 0, isInitialized := False\<rparr>)"
        by (simp add: chan_basic_def)
      then show ?thesis
        using \<open>get_pool s p = Some P\<close> True Some nc assms
        by (simp add: Pool_Release_def Let_def drain_chan_def chan_close_def wfb_set_pool)
    qed
  qed
qed

lemma wfb_Acquire:
  assumes "wf_basic s"
  shows "wf_basic (snd (Acquire p s))"
proof (cases "get_pool s p")
  case None
  then show ?thesis using assms by (simp add: Acquire.simps[of p s])
next
  case (Some P)
  have p: "p < length (pools s)" "pools s ! p = P" using Some by (auto simp: get_pool_Some)
  have ok: "chan_basic s p P" by (rule wfbD[OF assms Some])
  show ?thesis
  proof (cases "isReleased P = 1")
    case True
    then show ?thesis using assms Some by (simp add: Acquire_released)
  next
    case nr: False
    show ?thesis
    proof (cases "buffers P")
      case None
      then show ?thesis using assms Some nr by (simp add: Acquire_nil_chan)
    next
      case c: (Some c)
      show ?thesis
      proof (cases "items c")
        case Nil
        then show ?thesis using assms Some nr c by (simp add: Acquire.simps[of p s])
      next
        case (Cons b rest)
        let ?P' = "P\<lparr>buffers := Some (c\<lparr>items := rest\<rparr>)\<rparr>"
        let ?s1 = "set_pool p ?P' s"
        have hb: "b < length (bufs s)" "inUse (bufs s ! b) = 0" "pool (bufs s ! b) = Some p"
          using chan_basicD(3)[OF ok c, of b] Cons by auto
        have gb: "get_buf s b = Some (bufs s ! b)" using hb by (simp add: get_buf_Some)
        have eq: "Acquire p s = (Inr (Some b), set_buf b ((bufs s ! b)\<lparr>inUse := 1\<rparr>) ?s1)"
          by (rule Acquire_free[OF Some nr c Cons gb hb(2)])
        have ok': "chan_basic s p ?P'"
          using ok c Cons by (auto simp: chan_basic_def)
        have wf1: "wf_basic ?s1" by (rule wfb_set_pool[OF assms ok'])
        have "wf_basic (set_buf b ((bufs s ! b)\<lparr>inUse := 1\<rparr>) ?s1)"
        proof (rule wfb_set_buf_not_queued[OF wf1])
          fix q c' assume q: "q < length (pools ?s1)" and c': "buffers (pools ?s1 ! q) = Some c'"
          show "b \<notin> set (items c')"
          proof (cases "q = p")
            case True
            then have "c' = c\<lparr>items := rest\<rparr>" using c' p by (simp add: set_pool_def)
            then show ?thesis using chan_basicD(2)[OF ok c] Cons by auto
          next
            case False
            then have "buffers (pools s ! q) = Some c'" "q < length (pools s)"
              using c' q by (auto simp: set_pool_def)
            then show ?thesis using queued_free(3)[OF assms, of q c' b] hb(3) False by auto
          qed
        qed
        then show ?thesis using eq by simp
      qed
    qed
  qed
qed

lemma wfb_put:
  assumes "wf_basic s" "get_buf s b = Some B" "pool B = Some p"
    and nq: "\<And>q c. q < length (pools s) \<Longrightarrow> buffers (pools s ! q) = Some c \<Longrightarrow> b \<notin> set (items c)"
  shows "wf_basic (snd (put p b s))"
proof (cases "get_pool s p")
  case None
  then show ?thesis using assms(1) by (simp add: put_def)
next
  case (Some P)
  have p: "p < length (pools s)" "pools s ! p = P" using Some by (auto simp: get_pool_Some)
  have b: "b < length (bufs s)" "bufs s ! b = B" using assms(2) by (auto simp: get_buf_Some)
  have ok: "chan_basic s p P" by (rule wfbD[OF assms(1) Some])
  show ?thesis
  proof (cases "isReleased P \<noteq> 1 \<and> inUse B = 0 \<and>
                (\<exists>c. buffers P = Some c \<and> \<not> closed c \<and> length (items c) < ccap c)")
    case False
    then show ?thesis
      using assms(1,2) Some
      by (auto simp: put_def chan_try_send_def split: option.splits)
  next
    case True
    then obtain c where c: "buffers P = Some c" "\<not> closed c" "length (items c) < ccap c"
      by auto
    let ?P' = "P\<lparr>buffers := Some (c\<lparr>items := items c @ [b]\<rparr>)\<rparr>"
    have eq: "put p b s = (Inr (), set_pool p ?P' s)"
      using True Some assms(2) c by (simp add: put_def chan_try_send_def)
    have "b \<notin> set (items c)" using nq[OF p(1)] p(2) c(1) by simp
    then have "chan_basic s p ?P'"
      using ok c True b assms(3) by (auto simp: chan_basic_def)
    then show ?thesis using eq wfb_set_pool[OF assms(1)] by simp
  qed
qed

lemma wfb_Release:
  assumes "wf_basic s"
  shows "wf_basic (snd (Release b s))"
proof (cases "get_buf s b")
  case None
  then show ?thesis using assms by (simp add: Release_def cas_inUse_def)
next
  case (Some B)
  have b: "b < length (bufs s)" "bufs s ! b = B" using Some by (auto simp: get_buf_Some)
  show ?thesis
  proof (cases "inUse B = 1")
    case False
    then show ?thesis using assms Some by (simp add: Release_not_owned)
  next
    case True
    let ?B' = "B\<lparr>inUse := 0, lengthB := 0\<rparr>"
    let ?s2 = "set_buf b ?B' s"
    have wf2: "wf_basic ?s2"
      by (rule wfb_bufs_update[OF assms])
         (use b True in \<open>auto simp: set_buf_def nth_list_update\<close>)
    have gb: "get_buf ?s2 b = Some ?B'" using b by (simp add: get_buf_def set_buf_def)
    have nq: "b \<notin> set (items c)"
      if "q < length (pools ?s2)" "buffers (pools ?s2 ! q) = Some c" for q c
    proof
      assume "b \<in> set (items c)"
      moreover have "q < length (pools s)" "buffers (pools s ! q) = Some c"
        using that by (auto simp: set_buf_def)
      ultimately have "inUse (bufs s ! b) = 0" using queued_free(2)[OF assms] by blast
      then show False using b True by simp
    qed
    show ?thesis
    proof (cases "pool B")
      case None
      then show ?thesis using Release_owned[OF Some True] wf2 by simp
    next
      case (Some p)
      have "wf_basic (snd (put p b ?s2))"
        by (rule wfb_put[OF wf2 gb _ nq]) (use Some in auto)
      then show ?thesis using Release_owned[OF \<open>get_buf s b = Some B\<close> True] Some by simp
    qed
  qed
qed

lemma wfb_step:
  fixes s :: "'a::zero state"
  shows "wf_basic s \<Longrightarrow> wf_basic (step c s)"
proof (cases c)
  case CNewPool then show "wf_basic s \<Longrightarrow> wf_basic (step c s)" by (simp add: wfb_NewPool)
next
  case (CInit p n sz) then show "wf_basic s \<Longrightarrow> wf_basic (step c s)" by (simp add: wfb_Init)
next
  case (CBufferChan p) then show "wf_basic s \<Longrightarrow> wf_basic (step c s)"
    by (auto simp: BufferChan_def split: option.splits)
next
  case (CAcquire p) then show "wf_basic s \<Longrightarrow> wf_basic (step c s)" by (simp add: wfb_Acquire)
next
  case (CReset p) then show "wf_basic s \<Longrightarrow> wf_basic (step c s)" by (simp add: wfb_Reset)
next
  case (CAvailable p) then show "wf_basic s \<Longrightarrow> wf_basic (step c s)"
    by (simp add: Available_def split: option.splits)
next
  case (CPoolRelease p) then show "wf_basic s \<Longrightarrow> wf_basic (step c s)"
    by (simp add: wfb_Pool_Release)
next
  case (CSetLength b n) then show "wf_basic s \<Longrightarrow> wf_basic (step c s)" by (simp add: wfb_SetLength)
next
  case (CGetLength b) then show "wf_basic s \<Longrightarrow> wf_basic (step c s)"
    by (simp add: GetLength_def split: option.splits)
next
  case (CGetValidData b) then show "wf_basic s \<Longrightarrow> wf_basic (step c s)"
    by (simp add: GetValidData_def split: option.splits)
next
  case (CGetFullData b) then show "wf_basic s \<Longrightarrow> wf_basic (step c s)"
    by (simp add: GetFullData_def split: option.splits)
next
  case (CRelease b) then show "wf_basic s \<Longrightarrow> wf_basic (step c s)" by (simp add: wfb_Release)
qed

lemma wfb_run:
  fixes s :: "'a::zero state"
  shows "wf_basic s \<Longrightarrow> wf_basic (run cs s)"
  by (induction cs arbitrary: s) (simp_all add: wfb_step)

lemma wfb_reachable: "wf_basic (run cs (start_state mc ms :: 'a::zero state))"
  by (rule wfb_run[OF wfb_start])

subsection \<open>No call changes the bounds of make\<close>

lemma limits_put:
  "maxChan (snd (put p b s)) = maxChan s \<and> maxSlice (snd (put p b s)) = maxSlice s \<and>
   streams (snd (put p b s)) = streams s"
  by (simp add: put_def set_pool_def chan_try_send_def split: option.splits)

lemma limits_Release:
  "maxChan (snd (Release b s)) = maxChan s \<and> maxSlice (snd (Release b s)) = maxSlice s \<and>
   streams (snd (Release b s)) = streams s"
proof (cases "get_buf s b")
  case None
  then show ?thesis by (simp add: Release_def cas_inUse_def)
next
  case (Some B)
  then show ?thesis
    by (cases "inUse B = 1")
       (auto simp: Release_owned Release_not_owned limits_put set_buf_def split: option.splits)
qed

lemma limits_Acquire:
  "maxChan (snd (Acquire p s)) = maxChan s \<and> maxSlice (snd (Acquire p s)) = maxSlice s \<and>
   streams (snd (Acquire p s)) = streams s"
  by (cases rule: Acquire_cases[of p s]) (simp_all add: set_pool_def set_buf_def)

lemma limits_Init:
  fixes s :: "'a::zero state"
  shows "maxChan (snd (Init p n sz s)) = maxChan s \<and> maxSlice (snd (Init p n sz s)) = maxSlice s \<and>
   streams (snd (Init p n sz s)) = streams s"
  by (cases rule: Init_cases[of p n sz s]) (simp_all add: set_pool_def after_Init_def)

lemma limits_Reset:
  fixes s :: "'a::zero state"
  shows "maxChan (snd (Reset p s)) = maxChan s \<and> maxSlice (snd (Reset p s)) = maxSlice s \<and>
   streams (snd (Reset p s)) = streams s"
  by (auto simp: Reset_def Let_def fill_frame set_pool_def split: option.splits)

lemma limits_Pool_Release:
  "maxChan (snd (Pool_Release p s)) = maxChan s \<and>
   maxSlice (snd (Pool_Release p s)) = maxSlice s \<and>
   streams (snd (Pool_Release p s)) = streams s"
proof (cases "get_pool s p")
  case None
  then show ?thesis by (simp add: Pool_Release_def)
next
  case (Some P)
  then show ?thesis
    by (cases "chan_close (drain_chan (buffers P))")
       (simp_all add: Pool_Release_def Let_def set_pool_def)
qed

lemma limits_SetLength:
  "maxChan (snd (SetLength b n s)) = maxChan s \<and>
   maxSlice (snd (SetLength b n s)) = maxSlice s \<and>
   streams (snd (SetLength b n s)) = streams s"
  by (cases "get_buf s b") (simp_all add: SetLength_def Let_def set_buf_def)

lemma limits_step:
  fixes s :: "'a::zero state"
  shows "maxChan (step c s) = maxChan s \<and> maxSlice (step c s) = maxSlice s"
proof (cases c)
  case CNewPool
  then show ?thesis by (simp add: NewPool_def)
next
  case (CInit p n sz)
  then show ?thesis by (simp add: limits_Init)
next
  case (CBufferChan p)
  then show ?thesis by (simp add: BufferChan_def split: option.splits)
next
  case (CAcquire p)
  then show ?thesis by (simp add: limits_Acquire)
next
  case (CReset p)
  then show ?thesis by (simp add: limits_Reset)
next
  case (CAvailable p)
  then show ?thesis by (simp add: Available_def split: option.splits)
next
  case (CPoolRelease p)
  then show ?thesis by (simp add: limits_Pool_Release)
next
  case (CSetLength b n)
  then show ?thesis by (simp add: limits_SetLength)
next
  case (CGetLength b)
  then show ?thesis by (simp add: GetLength_def split: option.splits)
next
  case (CGetValidData b)
  then show ?thesis by (simp add: GetValidData_def split: option.splits)
next
  case (CGetFullData b)
  then show ?thesis by (simp add: GetFullData_def split: option.splits)
next
  case (CRelease b)
  then show ?thesis by (simp add: limits_Release)
qed

lemma fits_step:
  fixes s :: "'a::zero state"
  shows "fits (step c s) c' = fits s c'"
  by (cases c') (simp_all add: limits_step)

text \<open>Only \<open>BufferChan\<close> on a pool that is not released starts a goroutine.\<close>

lemma streams_step:
  fixes s :: "'a::zero state"
  assumes "\<not> hands_out c s b"
  shows "streams (step c s) = streams s"
proof (cases c)
  case CNewPool
  then show ?thesis by (simp add: NewPool_def)
next
  case (CInit p n sz)
  then show ?thesis by (simp add: limits_Init)
next
  case (CBufferChan p)
  then show ?thesis using assms by simp
next
  case (CAcquire p)
  then show ?thesis by (simp add: limits_Acquire)
next
  case (CReset p)
  then show ?thesis by (simp add: limits_Reset)
next
  case (CAvailable p)
  then show ?thesis by (simp add: Available_def split: option.splits)
next
  case (CPoolRelease p)
  then show ?thesis by (simp add: limits_Pool_Release)
next
  case (CSetLength b n)
  then show ?thesis by (simp add: limits_SetLength)
next
  case (CGetLength b)
  then show ?thesis by (simp add: GetLength_def split: option.splits)
next
  case (CGetValidData b)
  then show ?thesis by (simp add: GetValidData_def split: option.splits)
next
  case (CGetFullData b)
  then show ?thesis by (simp add: GetFullData_def split: option.splits)
next
  case (CRelease b)
  then show ?thesis by (simp add: limits_Release)
qed

subsection \<open>Acquire on a store with the basic invariant\<close>

lemma Acquire_wf_cases [consumes 1, case_names nil none some]:
  assumes "wf_basic s"
  obtains (nil) "get_pool s p = None" "Acquire p s = (Inl nil_deref, s)"
  | (none) P where "get_pool s p = Some P" "Acquire p s = (Inr None, s)"
  | (some) P c b rest where "get_pool s p = Some P" "isReleased P \<noteq> 1"
      "buffers P = Some c" "items c = b # rest" "\<not> closed c"
      "b < length (bufs s)" "inUse (bufs s ! b) = 0" "pool (bufs s ! b) = Some p"
      "Acquire p s =
         (Inr (Some b),
          set_buf b ((bufs s ! b)\<lparr>inUse := 1\<rparr>)
            (set_pool p (P\<lparr>buffers := Some (c\<lparr>items := rest\<rparr>)\<rparr>) s))"
proof (cases "get_pool s p")
  case None
  then show ?thesis using nil by (simp add: Acquire.simps[of p s])
next
  case (Some P)
  have ok: "chan_basic s p P" by (rule wfbD[OF assms Some])
  show ?thesis
  proof (cases "isReleased P = 1")
    case True
    then show ?thesis using none[OF Some] Some by (simp add: Acquire_released)
  next
    case nr: False
    show ?thesis
    proof (cases "buffers P")
      case None
      then show ?thesis using none[OF Some] Some nr by (simp add: Acquire_nil_chan)
    next
      case c: (Some c)
      have nc: "\<not> closed c" using chan_basicD(4)[OF ok c] nr by auto
      show ?thesis
      proof (cases "items c")
        case Nil
        then show ?thesis using none[OF Some] Some nr c nc by (simp add: Acquire_empty)
      next
        case (Cons b rest)
        have hb: "b < length (bufs s)" "inUse (bufs s ! b) = 0" "pool (bufs s ! b) = Some p"
          using chan_basicD(3)[OF ok c, of b] Cons by auto
        have gb: "get_buf s b = Some (bufs s ! b)" using hb by (simp add: get_buf_Some)
        show ?thesis
          by (rule some[OF Some nr c Cons nc hb Acquire_free[OF Some nr c Cons gb hb(2)]])
      qed
    qed
  qed
qed

subsection \<open>Calls within the bounds of make keep initialized pools sized\<close>

lemma wf_storeD: "wf_store s \<Longrightarrow> wf_basic s" "wf_store s \<Longrightarrow> sized_store s"
  by (simp_all add: wf_store_def)

lemma sizedD:
  assumes "sized_store s" "get_pool s p = Some P" "isInitialized P"
  obtains c where "buffers P = Some c" "ccap c = nat (bufCount P)" "0 \<le> bufSize P"
    "bufSize P \<le> maxSlice s"
  using assms by (auto simp: sized_store_def sized_def get_pool_Some split: option.splits)

lemma sized_cong:
  "isInitialized P' = isInitialized P \<Longrightarrow> map_option ccap (buffers P') = map_option ccap (buffers P) \<Longrightarrow>
   bufCount P' = bufCount P \<Longrightarrow> bufSize P' = bufSize P \<Longrightarrow> maxSlice s' = maxSlice s \<Longrightarrow>
   sized s' P' = sized s P"
  by (auto simp: sized_def split: option.splits)

lemma sized_maxSlice: "maxSlice s' = maxSlice s \<Longrightarrow> sized s' P = sized s P"
  by (simp add: sized_def cong: option.case_cong)

lemma sized_store_frame:
  "pools s' = pools s \<Longrightarrow> maxSlice s' = maxSlice s \<Longrightarrow> sized_store s' = sized_store s"
  by (simp add: sized_store_def sized_maxSlice[of s' s])

lemma sized_store_set_pool:
  assumes "sized_store s" "sized s P'"
  shows "sized_store (set_pool p P' s)"
  unfolding sized_store_def
proof (intro allI impI)
  fix q assume "q < length (pools (set_pool p P' s))"
  then have q: "q < length (pools s)" by (simp add: set_pool_def)
  have "sized s (pools (set_pool p P' s) ! q)"
    using assms q by (cases "q = p") (simp_all add: sized_store_def set_pool_def)
  moreover have "maxSlice (set_pool p P' s) = maxSlice s" by (simp add: set_pool_def)
  ultimately show "sized (set_pool p P' s) (pools (set_pool p P' s) ! q)"
    by (simp add: sized_maxSlice[of "set_pool p P' s" s])
qed

lemma sized_store_items:
  assumes "sized_store s" "get_pool s p = Some P" "buffers P = Some c"
  shows "sized_store (set_pool p (P\<lparr>buffers := Some (c\<lparr>items := xs\<rparr>)\<rparr>) s)"
proof (rule sized_store_set_pool[OF assms(1)])
  have "sized s P" using assms(1,2) by (auto simp: sized_store_def get_pool_Some)
  then show "sized s (P\<lparr>buffers := Some (c\<lparr>items := xs\<rparr>)\<rparr>)"
    using assms(3) by (simp add: sized_def)
qed

lemma put_cases [case_names same sent]:
  obtains (same) "snd (put p b s) = s"
  | (sent) P c where "get_pool s p = Some P" "isReleased P \<noteq> 1" "buffers P = Some c"
      "\<not> closed c" "length (items c) < ccap c"
      "put p b s = (Inr (), set_pool p (P\<lparr>buffers := Some (c\<lparr>items := items c @ [b]\<rparr>)\<rparr>) s)"
proof (cases "get_pool s p")
  case None
  then show ?thesis using same by (simp add: put_def)
next
  case (Some P)
  show ?thesis
  proof (cases "isReleased P \<noteq> 1 \<and> (\<exists>B. get_buf s b = Some B \<and> inUse B = 0) \<and>
                (\<exists>c. buffers P = Some c \<and> \<not> closed c \<and> length (items c) < ccap c)")
    case False
    then have "snd (put p b s) = s"
      using Some by (auto simp: put_def chan_try_send_def split: option.splits)
    then show ?thesis by (rule same)
  next
    case True
    then obtain c B where c: "buffers P = Some c" "\<not> closed c" "length (items c) < ccap c"
      and B: "get_buf s b = Some B" "inUse B = 0" by auto
    have "put p b s = (Inr (), set_pool p (P\<lparr>buffers := Some (c\<lparr>items := items c @ [b]\<rparr>)\<rparr>) s)"
      using True Some c B by (simp add: put_def chan_try_send_def)
    then show ?thesis using sent[OF Some _ c] True by simp
  qed
qed

lemma sized_put:
  assumes "sized_store s"
  shows "sized_store (snd (put p b s))"
proof (cases rule: put_cases[of p b s])
  case same
  show ?thesis unfolding same by (rule assms)
next
  case (sent P c)
  show ?thesis unfolding sent(6) snd_conv by (rule sized_store_items[OF assms sent(1,3)])
qed

lemma sized_Release: "sized_store s \<Longrightarrow> sized_store (snd (Release b s))"
proof (cases "get_buf s b")
  case None
  then show "sized_store s \<Longrightarrow> sized_store (snd (Release b s))"
    by (simp add: Release_def cas_inUse_def)
next
  case (Some B)
  have "sized_store (set_buf b B' s) = sized_store s" for B'
    by (rule sized_store_frame) (simp_all add: set_buf_def)
  then show "sized_store s \<Longrightarrow> sized_store (snd (Release b s))"
    using Some
    by (cases "inUse B = 1"; cases "pool B")
       (simp_all add: Release_owned Release_not_owned sized_put)
qed

lemma sized_Acquire: "sized_store s \<Longrightarrow> sized_store (snd (Acquire p s))"
proof (cases rule: Acquire_cases[of p s])
  case same
  show "sized_store s \<Longrightarrow> sized_store (snd (Acquire p s))" unfolding same(1) .
next
  case (popped P c b rest e)
  then show "sized_store s \<Longrightarrow> sized_store (snd (Acquire p s))"
    by (simp add: sized_store_items)
next
  case (got P c b rest B)
  have "sized_store (set_buf b B' t) = sized_store t" for B' and t :: "'a state"
    by (rule sized_store_frame) (simp_all add: set_buf_def)
  then show "sized_store s \<Longrightarrow> sized_store (snd (Acquire p s))"
    using got by (simp add: sized_store_items)
qed

lemma sized_Pool_Release: "sized_store s \<Longrightarrow> sized_store (snd (Pool_Release p s))"
proof (cases "get_pool s p")
  case None
  then show "sized_store s \<Longrightarrow> sized_store (snd (Pool_Release p s))"
    by (simp add: Pool_Release_def)
next
  case (Some P)
  assume a: "sized_store s"
  have P: "sized s P" using a Some by (auto simp: sized_store_def get_pool_Some)
  have 1: "sized s (P\<lparr>isReleased := 1, buffers := drain_chan (buffers P)\<rparr>)"
    using P by (auto simp: sized_def drain_chan_def split: option.splits)
  have 2: "sized s (P'\<lparr>isInitialized := False\<rparr>)" for P' by (simp add: sized_def)
  show "sized_store (snd (Pool_Release p s))"
  proof (cases "isReleased P = 0")
    case False
    then show ?thesis using Some a by (simp add: Pool_Release_def)
  next
    case True
    show ?thesis
    proof (cases "chan_close (drain_chan (buffers P))")
      case (Inl e)
      then have "snd (Pool_Release p s) =
          set_pool p (P\<lparr>isReleased := 1, buffers := drain_chan (buffers P)\<rparr>) s"
        using Some True by (simp add: Pool_Release_def Let_def)
      then show ?thesis using sized_store_set_pool[OF a 1] by simp
    next
      case (Inr c)
      then have "snd (Pool_Release p s) =
          set_pool p (P\<lparr>isReleased := 1, buffers := drain_chan (buffers P), buffers := Some c,
                         bufCount := 0, bufSize := 0, isInitialized := False\<rparr>) s"
        using Some True by (simp add: Pool_Release_def Let_def)
      then show ?thesis using sized_store_set_pool[OF a 2] by simp
    qed
  qed
qed

lemma sized_Init:
  fixes s :: "'a::zero state"
  assumes "sized_store s" "n \<le> maxChan s" "sz \<le> maxSlice s"
  shows "sized_store (snd (Init p n sz s))"
proof (cases rule: Init_cases[of p n sz s])
  case same
  then show ?thesis using assms by simp
next
  case (chan_panic P)
  then show ?thesis using assms by simp
next
  case (slice_panic P)
  then show ?thesis using assms by simp
next
  case (ok P)
  let ?P' = "P\<lparr>bufCount := n, bufSize := sz,
          buffers := Some \<lparr>items = [length (bufs s) ..< length (bufs s) + nat n],
                           ccap = nat n, closed = False\<rparr>,
          isInitialized := True\<rparr>"
  have "sized s ?P'" using ok by (simp add: sized_def)
  then have "sized_store (set_pool p ?P' s)" by (rule sized_store_set_pool[OF assms(1)])
  moreover have "sized_store (after_Init p n sz P s) = sized_store (set_pool p ?P' s)"
    by (rule sized_store_frame) (simp_all add: after_Init_def set_pool_def)
  ultimately show ?thesis using ok by simp
qed

lemma Reset_cases [consumes 1, case_names same nil refill]:
  fixes s :: "'a::zero state"
  assumes "wf_store s"
  obtains (same) "Reset p s = (Inr (), s)" | (nil) "Reset p s = (Inl nil_deref, s)"
  | (refill) P c where "get_pool s p = Some P" "isReleased P \<noteq> 1" "isInitialized P"
      "buffers P = Some c" "\<not> closed c" "ccap c = nat (bufCount P)"
      "Reset p s = (Inr (), after_Reset p P c s)"
proof (cases "get_pool s p")
  case None
  then show ?thesis using nil by (simp add: Reset_def)
next
  case (Some P)
  show ?thesis
  proof (cases "isReleased P \<noteq> 1 \<and> isInitialized P")
    case False
    then show ?thesis using Some same by (auto simp: Reset_def)
  next
    case True
    have ok: "chan_basic s p P" by (rule wfbD[OF wf_storeD(1)[OF assms] Some])
    from sizedD[OF wf_storeD(2)[OF assms] Some] True obtain c where
      c: "buffers P = Some c" "ccap c = nat (bufCount P)" "0 \<le> bufSize P"
        "bufSize P \<le> maxSlice s" by blast
    have nc: "\<not> closed c" using chan_basicD(4)[OF ok c(1)] True by auto
    have "Reset p s = (Inr (), after_Reset p P c s)"
      by (rule Reset_ok[OF Some _ _ c(1) nc]) (use True c in auto)
    then show ?thesis using refill[OF Some _ _ c(1) nc c(2)] True by simp
  qed
qed

lemma sized_Reset:
  fixes s :: "'a::zero state"
  assumes "wf_store s"
  shows "sized_store (snd (Reset p s))"
  using assms
proof (cases rule: Reset_cases[where p = p])
  case same
  then show ?thesis using wf_storeD(2)[OF assms] by simp
next
  case nil
  then show ?thesis using wf_storeD(2)[OF assms] by simp
next
  case (refill P c)
  let ?P' = "P\<lparr>buffers :=
          Some (c\<lparr>items := [length (bufs s) ..< length (bufs s) + nat (bufCount P)]\<rparr>)\<rparr>"
  have "sized_store (set_pool p ?P' s)"
    by (rule sized_store_items[OF wf_storeD(2)[OF assms] refill(1,4)])
  moreover have "sized_store (after_Reset p P c s) = sized_store (set_pool p ?P' s)"
    by (rule sized_store_frame) (simp_all add: after_Reset_def set_pool_def)
  ultimately show ?thesis using refill by simp
qed

lemma sized_step:
  fixes s :: "'a::zero state"
  assumes "wf_store s" "fits s c"
  shows "sized_store (step c s)"
proof -
  note a = wf_storeD(2)[OF assms(1)]
  show ?thesis
  proof (cases c)
    case CNewPool
    let ?s' = "s\<lparr>pools := pools s @ [\<lparr>buffers = None, bufSize = 0, bufCount = 0,
                                          isInitialized = False, isReleased = 0\<rparr>]\<rparr>"
    have "sized ?s' (pools ?s' ! q)" if "q < length (pools ?s')" for q
    proof (cases "q < length (pools s)")
      case True
      then have "sized s (pools s ! q)" using a by (simp add: sized_store_def)
      then show ?thesis using True by (simp add: sized_maxSlice[of ?s' s] nth_append)
    next
      case False
      then show ?thesis using that by (simp add: sized_def nth_append)
    qed
    then show ?thesis using CNewPool by (simp add: NewPool_def sized_store_def)
  next
    case (CInit p n sz)
    then show ?thesis using a assms(2) by (simp add: sized_Init)
  next
    case (CBufferChan p)
    have "sized_store (s\<lparr>streams := x\<rparr>) = sized_store s" for x
      by (rule sized_store_frame) simp_all
    then show ?thesis using a CBufferChan by (auto simp: BufferChan_def split: option.splits)
  next
    case (CAcquire p)
    then show ?thesis using a by (simp add: sized_Acquire)
  next
    case (CReset p)
    then show ?thesis using assms(1) by (simp add: sized_Reset)
  next
    case (CAvailable p)
    then show ?thesis using a by (simp add: Available_def split: option.splits)
  next
    case (CPoolRelease p)
    then show ?thesis using a by (simp add: sized_Pool_Release)
  next
    case (CSetLength b n)
    have "sized_store (set_buf b B' s) = sized_store s" for B'
      by (rule sized_store_frame) (simp_all add: set_buf_def)
    then show ?thesis using a CSetLength
      by (simp add: SetLength_def Let_def split: option.splits)
  next
    case (CGetLength b)
    then show ?thesis using a by (simp add: GetLength_def split: option.splits)
  next
    case (CGetValidData b)
    then show ?thesis using a by (simp add: GetValidData_def split: option.splits)
  next
    case (CGetFullData b)
    then show ?thesis using a by (simp add: GetFullData_def split: option.splits)
  next
    case (CRelease b)
    then show ?thesis using a by (simp add: sized_Release)
  qed
qed

lemma wf_step:
  fixes s :: "'a::zero state"
  shows "wf_store s \<Longrightarrow> fits s c \<Longrightarrow> wf_store (step c s)"
  using sized_step[of s c] wfb_step[of s c] by (simp add: wf_store_def)

lemma wf_run:
  fixes s :: "'a::zero state"
  shows "wf_store s \<Longrightarrow> \<forall>c \<in> set cs. fits s c \<Longrightarrow> wf_store (run cs s)"
proof (induction cs arbitrary: s)
  case Nil
  then show ?case by simp
next
  case (Cons c cs)
  have "wf_store (step c s)" using Cons.prems by (simp add: wf_step)
  moreover have "\<forall>c' \<in> set cs. fits (step c s) c'" using Cons.prems by (simp add: fits_step)
  ultimately show ?case using Cons.IH by simp
qed

lemma wf_start: "wf_store (start_state mc ms)"
  unfolding wf_store_def
  by (rule conjI[OF wfb_start]) (simp add: sized_store_def start_state_def)

lemma wf_reachable:
  "\<forall>c \<in> set cs. fits (start_state mc ms :: 'a::zero state) c \<Longrightarrow>
   wf_store (run cs (start_state mc ms :: 'a state))"
  by (rule wf_run[OF wf_start])

subsection \<open>The released flag is never cleared\<close>

lemma released_iff: "released s p \<longleftrightarrow> p < length (pools s) \<and> isReleased (pools s ! p) = 1"
  by (simp add: released_def get_pool_def)

lemma released_set_buf: "released (set_buf b B s) p = released s p"
  by (simp add: released_iff set_buf_def)

lemma released_set_pool:
  "released s p \<Longrightarrow> get_pool s q = Some Q \<Longrightarrow> isReleased Q' = isReleased Q \<Longrightarrow>
   released (set_pool q Q' s) p"
  by (auto simp: released_iff set_pool_def get_pool_Some nth_list_update)

lemma released_put: "released s p \<Longrightarrow> released (snd (put q b s)) p"
  by (auto simp: put_def chan_try_send_def released_set_pool split: option.splits)

lemma released_fill:
  fixes s :: "'a::zero state"
  shows "released s p \<Longrightarrow> released (snd (fill q i n sz s)) p"
proof -
  have "released s p \<longrightarrow> released (snd (fill q i n sz s)) p"
  proof (rule fill_rel[where R = "\<lambda>s t. released s p \<longrightarrow> released t p"])
    fix s :: "'a state" and P c
    assume "get_pool s q = Some P"
    then show "released s p \<longrightarrow>
        released (set_pool q (P\<lparr>buffers := Some (c\<lparr>items := items c @ [length (bufs s)]\<rparr>)\<rparr>)
                   (s\<lparr>bufs := bufs s @ [fresh_Buffer sz q]\<rparr>)) p"
      by (auto simp: released_iff set_pool_def get_pool_Some nth_list_update)
  qed (simp_all add: released_iff)
  then show "released s p \<Longrightarrow> released (snd (fill q i n sz s)) p" by simp
qed

lemma released_Acquire: "released s p \<Longrightarrow> released (snd (Acquire q s)) p"
proof (cases rule: Acquire_cases[of q s])
  case same
  show "released s p \<Longrightarrow> released (snd (Acquire q s)) p" unfolding same(1) .
next
  case (popped P c b rest e)
  then show "released s p \<Longrightarrow> released (snd (Acquire q s)) p"
    by (simp add: released_set_pool)
next
  case (got P c b rest B)
  then show "released s p \<Longrightarrow> released (snd (Acquire q s)) p"
    by (simp add: released_set_pool released_set_buf)
qed

lemma released_Release: "released s p \<Longrightarrow> released (snd (Release b s)) p"
proof (cases "get_buf s b")
  case None
  then show "released s p \<Longrightarrow> released (snd (Release b s)) p"
    by (simp add: Release_def cas_inUse_def)
next
  case (Some B)
  then show "released s p \<Longrightarrow> released (snd (Release b s)) p"
    by (cases "inUse B = 1")
       (auto simp: Release_owned Release_not_owned released_put released_set_buf
             split: option.splits)
qed

lemma released_step:
  fixes s :: "'a::zero state"
  assumes "released s p"
  shows "released (step c s) p"
proof (cases c)
  case CNewPool
  then show ?thesis using assms by (simp add: NewPool_def released_iff nth_append)
next
  case (CInit q n sz)
  show ?thesis
  proof (cases rule: Init_cases[of q n sz s])
    case same
    show ?thesis unfolding CInit step.simps same by (rule assms)
  next
    case (chan_panic P)
    then show ?thesis using assms CInit by (simp add: released_set_pool)
  next
    case (slice_panic P)
    then show ?thesis using assms CInit by (simp add: released_set_pool)
  next
    case (ok P)
    then have "q \<noteq> p" using assms by (auto simp: released_iff get_pool_Some)
    then show ?thesis
      using assms CInit ok by (simp add: after_Init_def released_iff)
  qed
next
  case (CBufferChan q)
  then show ?thesis using assms by (auto simp: BufferChan_def released_iff split: option.splits)
next
  case (CAcquire q)
  then show ?thesis using assms by (simp add: released_Acquire)
next
  case (CReset q)
  then show ?thesis using assms
    by (auto simp: Reset_def Let_def released_fill released_set_pool split: option.splits)
next
  case (CAvailable q)
  then show ?thesis using assms by (simp add: Available_def split: option.splits)
next
  case (CPoolRelease q)
  then show ?thesis using assms
    by (auto simp: Pool_Release_def Let_def chan_close_def drain_chan_def released_iff
                   set_pool_def get_pool_Some nth_list_update split: option.splits)
next
  case (CSetLength b n)
  then show ?thesis using assms
    by (simp add: SetLength_def Let_def released_set_buf split: option.splits)
next
  case (CGetLength b)
  then show ?thesis using assms by (simp add: GetLength_def split: option.splits)
next
  case (CGetValidData b)
  then show ?thesis using assms by (simp add: GetValidData_def split: option.splits)
next
  case (CGetFullData b)
  then show ?thesis using assms by (simp add: GetFullData_def split: option.splits)
next
  case (CRelease b)
  then show ?thesis using assms by (simp add: released_Release)
qed

lemma released_run:
  fixes s :: "'a::zero state"
  shows "released s p \<Longrightarrow> released (run cs s) p"
  by (induction cs arbitrary: s) (simp_all add: released_step)

subsection \<open>Pool.Release by cases\<close>

lemma Pool_Release_nil_chan:
  "get_pool s p = Some P \<Longrightarrow> isReleased P = 0 \<Longrightarrow> buffers P = None \<Longrightarrow>
   Pool_Release p s = (Inl (Panic ''close of nil channel''), set_pool p (P\<lparr>isReleased := 1, buffers := None\<rparr>) s)"
  by (simp add: Pool_Release_def Let_def drain_chan_def chan_close_def)

lemma Pool_Release_open_chan:
  "get_pool s p = Some P \<Longrightarrow> isReleased P = 0 \<Longrightarrow> buffers P = Some c \<Longrightarrow> \<not> closed c \<Longrightarrow>
   Pool_Release p s =
     (Inr (), set_pool p (P\<lparr>isReleased := 1, buffers := Some (c\<lparr>items := [], closed := True\<rparr>),
                            bufCount := 0, bufSize := 0, isInitialized := False\<rparr>) s)"
  by (simp add: Pool_Release_def Let_def drain_chan_def chan_close_def)

lemma Pool_Release_again:
  "get_pool s p = Some P \<Longrightarrow> isReleased P \<noteq> 0 \<Longrightarrow> Pool_Release p s = (Inr (), s)"
  by (simp add: Pool_Release_def)

lemma released_Pool_Release:
  assumes "get_pool s p = Some P" "isReleased P = 0 \<or> isReleased P = 1"
  shows "released (snd (Pool_Release p s)) p"
  using assms
  by (auto simp: Pool_Release_def Let_def chan_close_def drain_chan_def released_iff
                 set_pool_def get_pool_Some split: option.splits)

subsection \<open>Calls on a released pool\<close>

lemma released_ops:
  fixes s :: "'a::zero state"
  assumes "released s p"
  shows "Acquire p s = (Inr None, s)" "BufferChan p s = (Inr None, s)"
    "Available p s = (Inr 0, s)" "Reset p s = (Inr (), s)" "Pool_Release p s = (Inr (), s)"
    "Init p n sz s = (Inr (Some ''pool has been released''), s)"
  using assms
  by (auto simp: released_def Acquire_released BufferChan_def Available_def Reset_def
                 Pool_Release_def Init_def split: option.splits)

subsection \<open>Acquire, use, Release\<close>

lemma Release_held:
  assumes "get_pool s p = Some P" "isReleased P \<noteq> 1" "buffers P = Some c" "\<not> closed c"
    "length (items c) < ccap c" "get_buf s b = Some B" "inUse B = 1" "pool B = Some p"
  shows "Release b s =
           (Inr (), set_pool p (P\<lparr>buffers := Some (c\<lparr>items := items c @ [b]\<rparr>)\<rparr>)
                      (set_buf b (B\<lparr>inUse := 0, lengthB := 0\<rparr>) s))"
proof -
  let ?s1 = "set_buf b (B\<lparr>inUse := 0, lengthB := 0\<rparr>) s"
  have b: "b < length (bufs s)" using assms(6) by (simp add: get_buf_Some)
  have gp: "get_pool ?s1 p = Some P"
    using assms(1) by (auto simp: get_pool_def set_buf_def split: if_splits)
  have gb: "get_buf ?s1 b = Some (B\<lparr>inUse := 0, lengthB := 0\<rparr>)"
    using b by (simp add: get_buf_def set_buf_def)
  have "put p b ?s1 = (Inr (), set_pool p (P\<lparr>buffers := Some (c\<lparr>items := items c @ [b]\<rparr>)\<rparr>) ?s1)"
    using assms(2-5) by (simp add: put_def gp gb chan_try_send_def)
  then show ?thesis using Release_owned[OF assms(6,7)] assms(8) by simp
qed

lemma SetLengths_frame:
  fixes s :: "'a::zero state"
  shows "get_buf s b = Some B \<Longrightarrow>
         \<exists>m. run (map (CSetLength b) ns) s = s\<lparr>bufs := (bufs s)[b := B\<lparr>lengthB := m\<rparr>]\<rparr>"
proof (induction ns arbitrary: s B)
  case Nil
  then have "run (map (CSetLength b) []) s = s\<lparr>bufs := (bufs s)[b := B\<lparr>lengthB := lengthB B\<rparr>]\<rparr>"
    by (auto simp: get_buf_Some)
  then show ?case by (rule exI)
next
  case (Cons n ns)
  define m0 where "m0 = (if n > int (length (data B)) then int (length (data B)) else n)"
  let ?s1 = "set_buf b (B\<lparr>lengthB := m0\<rparr>) s"
  have b: "b < length (bufs s)" using Cons.prems by (simp add: get_buf_Some)
  have st: "step (CSetLength b n) s = ?s1"
    using Cons.prems by (simp add: SetLength_def Let_def m0_def)
  have gb: "get_buf ?s1 b = Some (B\<lparr>lengthB := m0\<rparr>)"
    using b by (simp add: get_buf_def set_buf_def)
  from Cons.IH[OF gb] obtain m where
    "run (map (CSetLength b) ns) ?s1 = ?s1\<lparr>bufs := (bufs ?s1)[b := B\<lparr>lengthB := m0\<rparr>\<lparr>lengthB := m\<rparr>]\<rparr>"
    by blast
  then have "run (map (CSetLength b) (n # ns)) s = s\<lparr>bufs := (bufs s)[b := B\<lparr>lengthB := m\<rparr>]\<rparr>"
    using st by (simp add: set_buf_def)
  then show ?case by blast
qed

text \<open>Acquire, any number of SetLength calls on the acquired Buffer, then Release, on a
  well-formed store.\<close>

lemma Acquire_use_Release:
  fixes s :: "'a::zero state"
  assumes "wf_basic s" "Acquire p s = (Inr (Some b), s1)"
  obtains s2 n B2 where "Release b (run (map (CSetLength b) ns) s1) = (Inr (), s2)"
    "Available p s = (Inr n, s)" "Available p s2 = (Inr n, s2)"
    "get_buf s2 b = Some B2" "lengthB B2 = 0" "inUse B2 = 0" "wf_basic s2"
proof -
  from assms(1) show ?thesis
  proof (cases rule: Acquire_wf_cases[where p = p])
    case nil
    then show ?thesis using assms(2) by simp
  next
    case (none P)
    then show ?thesis using assms(2) by simp
  next
    case (some P c b' rest)
    have bb: "b' = b" using some(9) assms(2) by simp
    let ?B1 = "(bufs s ! b)\<lparr>inUse := 1\<rparr>"
    let ?P1 = "P\<lparr>buffers := Some (c\<lparr>items := rest\<rparr>)\<rparr>"
    have s1: "s1 = set_buf b ?B1 (set_pool p ?P1 s)"
      using some(9) assms(2) bb by simp
    have p: "p < length (pools s)" "pools s ! p = P"
      using some(1) by (auto simp: get_pool_Some)
    have b: "b < length (bufs s)" using some(6) bb by simp
    have ok: "chan_basic s p P" by (rule wfbD[OF assms(1) some(1)])
    have room: "length rest < ccap c" using chan_basicD(1)[OF ok some(3)] some(4) by simp
    have gb1: "get_buf s1 b = Some ?B1"
      using b by (simp add: s1 get_buf_def set_buf_def set_pool_def)
    from SetLengths_frame[OF gb1, of ns] obtain m where
      u: "run (map (CSetLength b) ns) s1 = s1\<lparr>bufs := (bufs s1)[b := ?B1\<lparr>lengthB := m\<rparr>]\<rparr>"
      by blast
    let ?u = "run (map (CSetLength b) ns) s1"
    let ?Bu = "?B1\<lparr>lengthB := m\<rparr>"
    have gpu: "get_pool ?u p = Some ?P1"
      unfolding u using p by (simp add: s1 get_pool_def set_buf_def set_pool_def)
    have gbu: "get_buf ?u b = Some ?Bu"
      unfolding u using b by (simp add: s1 get_buf_def set_buf_def set_pool_def)
    let ?B2 = "?Bu\<lparr>inUse := 0, lengthB := 0\<rparr>"
    let ?s2 = "set_pool p (?P1\<lparr>buffers := Some (c\<lparr>items := rest\<rparr>\<lparr>items := items (c\<lparr>items := rest\<rparr>) @ [b]\<rparr>)\<rparr>)
                 (set_buf b ?B2 ?u)"
    have rel: "Release b ?u = (Inr (), ?s2)"
      by (rule Release_held[OF gpu _ _ _ _ gbu]) (use some(2,5,8) room bb in simp_all)
    have av0: "Available p s = (Inr (int (length (items c))), s)"
      using some(1,2,3) by (simp add: Available_def chan_len_def)
    have pu: "p < length (pools ?u)" using gpu by (simp add: get_pool_Some)
    have bu: "b < length (bufs ?u)" using gbu by (simp add: get_buf_Some)
    have av2: "Available p ?s2 = (Inr (int (length (items c))), ?s2)"
      using some(2,4) pu by (simp add: Available_def get_pool_def set_pool_def set_buf_def chan_len_def)
    have gb2: "get_buf ?s2 b = Some ?B2"
      using bu by (simp add: get_buf_def set_buf_def set_pool_def)
    have "wf_basic s1" using wfb_Acquire[OF assms(1), of p] assms(2) by simp
    then have "wf_basic ?u" by (rule wfb_run)
    then have wf2: "wf_basic ?s2" using wfb_Release[of ?u b] rel by simp
    show ?thesis
      by (rule that[OF rel av0 av2 gb2 _ _ wf2]) simp_all
  qed
qed

subsection \<open>A free Buffer stays free until a call hands it out\<close>

lemma bufs_put: "bufs (snd (put p b s)) = bufs s"
  by (auto simp: put_def set_pool_def split: option.splits sum.splits)

lemma bufs_Pool_Release: "bufs (snd (Pool_Release p s)) = bufs s"
  by (auto simp: Pool_Release_def Let_def set_pool_def split: option.splits sum.splits)

lemma is_free_append: "is_free s b \<Longrightarrow> bufs s' = bufs s @ xs \<Longrightarrow> is_free s' b"
  by (simp add: is_free_def nth_append)

lemma is_free_step:
  fixes s :: "'a::zero state"
  assumes "wf_basic s" "is_free s b" "\<not> hands_out c s b"
  shows "is_free (step c s) b"
proof (cases c)
  case CNewPool
  then show ?thesis using assms(2) by (simp add: NewPool_def is_free_def)
next
  case (CInit p n sz)
  from bufs_Init[of p n sz s] obtain k where
    "bufs (snd (Init p n sz s)) = bufs s @ replicate k (fresh_Buffer sz p)" by blast
  then show ?thesis using CInit is_free_append[OF assms(2)] by simp
next
  case (CBufferChan p)
  then show ?thesis using assms(2) by (auto simp: BufferChan_def is_free_def split: option.splits)
next
  case (CAcquire p)
  from assms(1) show ?thesis
  proof (cases rule: Acquire_wf_cases[where p = p])
    case nil
    then show ?thesis using assms(2) CAcquire by simp
  next
    case (none P)
    then show ?thesis using assms(2) CAcquire by simp
  next
    case (some P c' b' rest)
    then have "b' \<noteq> b" using assms(3) CAcquire by auto
    then show ?thesis using assms(2) CAcquire some(9)
      by (simp add: is_free_def set_buf_def set_pool_def)
  qed
next
  case (CReset p)
  from bufs_Reset[of p s] obtain k sz where
    "bufs (snd (Reset p s)) = bufs s @ replicate k (fresh_Buffer sz p)" by blast
  then show ?thesis using CReset is_free_append[OF assms(2)] by simp
next
  case (CAvailable p)
  then show ?thesis using assms(2) by (simp add: Available_def split: option.splits)
next
  case (CPoolRelease p)
  then show ?thesis using assms(2) by (simp add: is_free_def bufs_Pool_Release)
next
  case (CSetLength b' n)
  then show ?thesis using assms(2)
    by (auto simp: SetLength_def Let_def is_free_def set_buf_def get_buf_Some nth_list_update
             split: option.splits)
next
  case (CGetLength b')
  then show ?thesis using assms(2) by (simp add: GetLength_def split: option.splits)
next
  case (CGetValidData b')
  then show ?thesis using assms(2) by (simp add: GetValidData_def split: option.splits)
next
  case (CGetFullData b')
  then show ?thesis using assms(2) by (simp add: GetFullData_def split: option.splits)
next
  case (CRelease b')
  show ?thesis
  proof (cases "get_buf s b'")
    case None
    then show ?thesis using assms(2) CRelease by (simp add: Release_def cas_inUse_def)
  next
    case (Some B')
    show ?thesis
    proof (cases "inUse B' = 1")
      case False
      then show ?thesis using assms(2) CRelease Some by (simp add: Release_not_owned)
    next
      case True
      then have ne: "b' \<noteq> b" using Some assms(2) by (auto simp: is_free_def get_buf_Some)
      have "is_free (set_buf b' (B'\<lparr>inUse := 0, lengthB := 0\<rparr>) s) b"
        using assms(2) ne by (simp add: is_free_def set_buf_def)
      then show ?thesis using CRelease Release_owned[OF Some True]
        by (auto simp: is_free_def bufs_put split: option.splits)
    qed
  qed
qed

lemma is_free_run:
  fixes s :: "'a::zero state"
  shows "wf_basic s \<Longrightarrow> is_free s b \<Longrightarrow> \<not> reacquired b cs s \<Longrightarrow> is_free (run cs s) b"
proof (induction cs arbitrary: s)
  case Nil
  then show ?case by simp
next
  case (Cons c cs)
  then show ?case using is_free_step[of s b c] wfb_step[of s c] by simp
qed

subsection \<open>An acquired Buffer stays in use until it is released\<close>

lemma is_owned_append: "is_owned s b \<Longrightarrow> bufs s' = bufs s @ xs \<Longrightarrow> is_owned s' b"
  by (simp add: is_owned_def nth_append)

lemma is_owned_step:
  fixes s :: "'a::zero state"
  assumes "wf_basic s" "is_owned s b" "c \<noteq> CRelease b"
  shows "is_owned (step c s) b \<and> pool (bufs (step c s) ! b) = pool (bufs s ! b)"
proof (cases c)
  case CNewPool
  then show ?thesis using assms(2) by (simp add: NewPool_def is_owned_def)
next
  case (CInit p n sz)
  from bufs_Init[of p n sz s] obtain k where
    "bufs (snd (Init p n sz s)) = bufs s @ replicate k (fresh_Buffer sz p)" by blast
  then show ?thesis using CInit is_owned_append[OF assms(2)] assms(2)
    by (simp add: is_owned_def nth_append)
next
  case (CBufferChan p)
  then show ?thesis using assms(2) by (auto simp: BufferChan_def is_owned_def split: option.splits)
next
  case (CAcquire p)
  from assms(1) show ?thesis
  proof (cases rule: Acquire_wf_cases[where p = p])
    case nil
    then show ?thesis using assms(2) CAcquire by simp
  next
    case (none P)
    then show ?thesis using assms(2) CAcquire by simp
  next
    case (some P c' b' rest)
    then have "b' \<noteq> b" using assms(2) by (auto simp: is_owned_def)
    then show ?thesis using assms(2) CAcquire some(9)
      by (simp add: is_owned_def set_buf_def set_pool_def)
  qed
next
  case (CReset p)
  from bufs_Reset[of p s] obtain k sz where
    "bufs (snd (Reset p s)) = bufs s @ replicate k (fresh_Buffer sz p)" by blast
  then show ?thesis using CReset is_owned_append[OF assms(2)] assms(2)
    by (simp add: is_owned_def nth_append)
next
  case (CAvailable p)
  then show ?thesis using assms(2) by (simp add: Available_def split: option.splits)
next
  case (CPoolRelease p)
  then show ?thesis using assms(2) by (simp add: is_owned_def bufs_Pool_Release)
next
  case (CSetLength b' n)
  then show ?thesis using assms(2)
    by (auto simp: SetLength_def Let_def is_owned_def set_buf_def get_buf_Some nth_list_update
             split: option.splits)
next
  case (CGetLength b')
  then show ?thesis using assms(2) by (simp add: GetLength_def split: option.splits)
next
  case (CGetValidData b')
  then show ?thesis using assms(2) by (simp add: GetValidData_def split: option.splits)
next
  case (CGetFullData b')
  then show ?thesis using assms(2) by (simp add: GetFullData_def split: option.splits)
next
  case (CRelease b')
  then have ne: "b' \<noteq> b" using assms(3) by simp
  show ?thesis
  proof (cases "get_buf s b'")
    case None
    then show ?thesis using assms(2) CRelease by (simp add: Release_def cas_inUse_def)
  next
    case (Some B')
    show ?thesis
    proof (cases "inUse B' = 1")
      case False
      then show ?thesis using assms(2) CRelease Some by (simp add: Release_not_owned)
    next
      case True
      have "is_owned (set_buf b' (B'\<lparr>inUse := 0, lengthB := 0\<rparr>) s) b \<and>
            pool (bufs (set_buf b' (B'\<lparr>inUse := 0, lengthB := 0\<rparr>) s) ! b) = pool (bufs s ! b)"
        using assms(2) ne by (simp add: is_owned_def set_buf_def)
      then show ?thesis using CRelease Release_owned[OF Some True]
        by (auto simp: is_owned_def bufs_put split: option.splits)
    qed
  qed
qed

lemma is_owned_run:
  fixes s :: "'a::zero state"
  shows "wf_basic s \<Longrightarrow> is_owned s b \<Longrightarrow> CRelease b \<notin> set cs \<Longrightarrow>
         is_owned (run cs s) b \<and> pool (bufs (run cs s) ! b) = pool (bufs s ! b)"
proof (induction cs arbitrary: s)
  case Nil
  then show ?case by simp
next
  case (Cons c cs)
  have 1: "is_owned (step c s) b" "pool (bufs (step c s) ! b) = pool (bufs s ! b)"
    using is_owned_step[of s b c] Cons.prems by auto
  have 2: "wf_basic (step c s)" using Cons.prems by (simp add: wfb_step)
  show ?case using Cons.IH[OF 2 1(1)] Cons.prems 1(2) by simp
qed

text \<open>The \<open>Release\<close> of a Buffer that is in use and belongs to an existing pool, on a store
  with the basic invariant: it returns, or it panics on the full free list (the nil
  channel counts as full in the \<open>select\<close>). Either way the Buffer is free afterwards.\<close>

lemma Release_owned_outcome:
  assumes "wf_basic s" "is_owned s b" "pool (bufs s ! b) = Some p" "p < length (pools s)"
  obtains r s2 where "Release b s = (r, s2)"
    "r = Inr () \<or> r = Inl (Panic ''Attempting to return a buffer to a full pool'')"
    "is_free s2 b" "wf_basic s2"
proof -
  let ?B = "bufs s ! b"
  let ?s1 = "set_buf b (?B\<lparr>inUse := 0, lengthB := 0\<rparr>) s"
  have b: "b < length (bufs s)" "inUse ?B = 1" using assms(2) by (auto simp: is_owned_def)
  have gb: "get_buf s b = Some ?B" using b by (simp add: get_buf_Some)
  have rel: "Release b s = put p b ?s1"
    using Release_owned[OF gb b(2)] assms(3) by simp
  have w2: "wf_basic (snd (Release b s))" by (rule wfb_Release[OF assms(1)])
  have f1: "is_free ?s1 b" using b by (simp add: is_free_def set_buf_def)
  have gp: "get_pool ?s1 p = Some (pools s ! p)"
    using assms(4) by (simp add: get_pool_def set_buf_def)
  have gb1: "get_buf ?s1 b = Some (?B\<lparr>inUse := 0, lengthB := 0\<rparr>)"
    using b by (simp add: get_buf_def set_buf_def)
  have ok: "chan_basic s p (pools s ! p)" using assms(1,4) by (simp add: wf_basic_def)
  have nc: "closed c \<Longrightarrow> isReleased (pools s ! p) = 1" if "buffers (pools s ! p) = Some c" for c
    using chan_basicD(4)[OF ok that] .
  obtain r s2 where rs: "put p b ?s1 = (r, s2)" by (cases "put p b ?s1") auto
  have r: "r = Inr () \<or> r = Inl (Panic ''Attempting to return a buffer to a full pool'')"
    using rs nc
    by (auto simp: put_def gp gb1 chan_try_send_def split: option.splits if_splits)
  have "bufs s2 = bufs ?s1" using bufs_put[of p b ?s1] rs by simp
  then have f2: "is_free s2 b" using f1 by (simp add: is_free_def)
  show ?thesis
    by (rule that[of r s2]) (use rel rs r f2 w2 in simp_all)
qed

subsection \<open>Release into a full free list\<close>

lemma Release_full:
  assumes "get_pool s p = Some P" "isReleased P \<noteq> 1" "buffers P = Some c" "\<not> closed c"
    "\<not> length (items c) < ccap c" "get_buf s b = Some B" "inUse B = 1" "pool B = Some p"
  shows "Release b s =
           (Inl (Panic ''Attempting to return a buffer to a full pool''),
            set_buf b (B\<lparr>inUse := 0, lengthB := 0\<rparr>) s)"
proof -
  let ?s1 = "set_buf b (B\<lparr>inUse := 0, lengthB := 0\<rparr>) s"
  have b: "b < length (bufs s)" using assms(6) by (simp add: get_buf_Some)
  have gp: "get_pool ?s1 p = Some P"
    using assms(1) by (auto simp: get_pool_def set_buf_def split: if_splits)
  have gb: "get_buf ?s1 b = Some (B\<lparr>inUse := 0, lengthB := 0\<rparr>)"
    using b by (simp add: get_buf_def set_buf_def)
  have "put p b ?s1 = (Inl (Panic ''Attempting to return a buffer to a full pool''), ?s1)"
    using assms(2-5) by (simp add: put_def gp gb chan_try_send_def)
  then show ?thesis using Release_owned[OF assms(6,7)] assms(8) by simp
qed

subsection \<open>Valid lengths stay in range while SetLength gets no negative argument\<close>

lemma len_in_range_fresh: "len_in_range (fresh_Buffer sz p)"
  by (simp add: len_in_range_def fresh_Buffer_def)

lemma lens_ok_append:
  "lens_ok s \<Longrightarrow> bufs s' = bufs s @ replicate k (fresh_Buffer sz p) \<Longrightarrow> lens_ok s'"
  by (auto simp: lens_ok_def nth_append len_in_range_fresh)

lemma lens_ok_set_buf:
  "lens_ok s \<Longrightarrow> len_in_range B \<Longrightarrow> lens_ok (set_buf b B s)"
  unfolding lens_ok_def set_buf_def
proof (intro allI impI)
  fix b'
  assume a: "\<forall>b<length (bufs s). len_in_range (bufs s ! b)" "len_in_range B"
    and b': "b' < length (bufs (s\<lparr>bufs := (bufs s)[b := B]\<rparr>))"
  then show "len_in_range (bufs (s\<lparr>bufs := (bufs s)[b := B]\<rparr>) ! b')"
    by (cases "b' = b") simp_all
qed

lemma lens_ok_bufs_eq: "bufs s' = bufs s \<Longrightarrow> lens_ok s' = lens_ok s"
  by (simp add: lens_ok_def)

lemma lens_ok_step:
  fixes s :: "'a::zero state"
  assumes "wf_basic s" "lens_ok s" "nonneg_call c"
  shows "lens_ok (step c s)"
proof (cases c)
  case CNewPool
  then show ?thesis using assms(2) by (simp add: NewPool_def lens_ok_def)
next
  case (CInit p n sz)
  from bufs_Init[of p n sz s] obtain k where
    "bufs (snd (Init p n sz s)) = bufs s @ replicate k (fresh_Buffer sz p)" by blast
  then show ?thesis using CInit lens_ok_append[OF assms(2)] by simp
next
  case (CBufferChan p)
  then show ?thesis using assms(2) by (auto simp: BufferChan_def lens_ok_def split: option.splits)
next
  case (CAcquire p)
  from assms(1) show ?thesis
  proof (cases rule: Acquire_wf_cases[where p = p])
    case nil
    then show ?thesis using assms(2) CAcquire by simp
  next
    case (none P)
    then show ?thesis using assms(2) CAcquire by simp
  next
    case (some P c' b' rest)
    have "len_in_range ((bufs s ! b')\<lparr>inUse := 1\<rparr>)"
      using assms(2) some(6) by (simp add: lens_ok_def len_in_range_def)
    moreover have "lens_ok (set_pool p (P\<lparr>buffers := Some (c'\<lparr>items := rest\<rparr>)\<rparr>) s)"
      using assms(2) by (simp add: lens_ok_def set_pool_def)
    ultimately show ?thesis using CAcquire some(9) by (simp add: lens_ok_set_buf)
  qed
next
  case (CReset p)
  from bufs_Reset[of p s] obtain k sz where
    "bufs (snd (Reset p s)) = bufs s @ replicate k (fresh_Buffer sz p)" by blast
  then show ?thesis using CReset lens_ok_append[OF assms(2)] by simp
next
  case (CAvailable p)
  then show ?thesis using assms(2) by (simp add: Available_def split: option.splits)
next
  case (CPoolRelease p)
  then show ?thesis using assms(2) by (simp add: lens_ok_bufs_eq[OF bufs_Pool_Release])
next
  case (CSetLength b n)
  show ?thesis
  proof (cases "get_buf s b")
    case None
    then show ?thesis using assms(2) CSetLength by (simp add: SetLength_def)
  next
    case (Some B)
    have "len_in_range (B\<lparr>lengthB := (if n > int (length (data B)) then int (length (data B)) else n)\<rparr>)"
      using assms(3) CSetLength by (simp add: len_in_range_def)
    then show ?thesis using assms(2) CSetLength Some
      by (simp add: SetLength_def Let_def lens_ok_set_buf)
  qed
next
  case (CGetLength b)
  then show ?thesis using assms(2) by (simp add: GetLength_def split: option.splits)
next
  case (CGetValidData b)
  then show ?thesis using assms(2) by (simp add: GetValidData_def split: option.splits)
next
  case (CGetFullData b)
  then show ?thesis using assms(2) by (simp add: GetFullData_def split: option.splits)
next
  case (CRelease b)
  show ?thesis
  proof (cases "get_buf s b")
    case None
    then show ?thesis using assms(2) CRelease by (simp add: Release_def cas_inUse_def)
  next
    case (Some B)
    show ?thesis
    proof (cases "inUse B = 1")
      case False
      then show ?thesis using assms(2) CRelease Some by (simp add: Release_not_owned)
    next
      case True
      have "len_in_range (B\<lparr>inUse := 0, lengthB := 0\<rparr>)" by (simp add: len_in_range_def)
      then have "lens_ok (set_buf b (B\<lparr>inUse := 0, lengthB := 0\<rparr>) s)"
        using assms(2) by (simp add: lens_ok_set_buf)
      then show ?thesis using CRelease Release_owned[OF Some True]
        by (auto simp: lens_ok_bufs_eq[OF bufs_put] split: option.splits)
    qed
  qed
qed

lemma lens_ok_run:
  fixes s :: "'a::zero state"
  shows "wf_basic s \<Longrightarrow> lens_ok s \<Longrightarrow> \<forall>c \<in> set cs. nonneg_call c \<Longrightarrow> lens_ok (run cs s)"
proof (induction cs arbitrary: s)
  case Nil
  then show ?case by simp
next
  case (Cons c cs)
  then show ?case using lens_ok_step[of s c] wfb_step[of s c] by simp
qed

lemma lens_ok_reachable:
  "\<forall>c \<in> set cs. nonneg_call c \<Longrightarrow> lens_ok (run cs (start_state mc ms :: 'a::zero state))"
  by (rule lens_ok_run[OF wfb_start]) (simp_all add: lens_ok_def start_state_def)

subsection \<open>Pools are never removed\<close>

lemma length_pools_put: "length (pools (snd (put p b s))) = length (pools s)"
  by (cases rule: put_cases[of p b s]) (simp_all add: set_pool_def)

lemma length_pools_step:
  fixes s :: "'a::zero state"
  shows "length (pools s) \<le> length (pools (step c s))"
proof (cases c)
  case CNewPool
  then show ?thesis by (simp add: NewPool_def)
next
  case (CInit p n sz)
  then show ?thesis
    by (cases rule: Init_cases[of p n sz s]) (simp_all add: set_pool_def after_Init_def)
next
  case (CBufferChan p)
  then show ?thesis by (simp add: BufferChan_def split: option.splits)
next
  case (CAcquire p)
  then show ?thesis
    by (cases rule: Acquire_cases[of p s]) (simp_all add: set_pool_def set_buf_def)
next
  case (CReset p)
  then show ?thesis
    by (auto simp: Reset_def Let_def fill_frame set_pool_def split: option.splits)
next
  case (CAvailable p)
  then show ?thesis by (simp add: Available_def split: option.splits)
next
  case (CPoolRelease p)
  show ?thesis
  proof (cases "get_pool s p")
    case None
    then show ?thesis using CPoolRelease by (simp add: Pool_Release_def)
  next
    case (Some P)
    then show ?thesis using CPoolRelease
      by (cases "chan_close (drain_chan (buffers P))")
         (simp_all add: Pool_Release_def Let_def set_pool_def)
  qed
next
  case (CSetLength b n)
  then show ?thesis by (cases "get_buf s b") (simp_all add: SetLength_def Let_def set_buf_def)
next
  case (CGetLength b)
  then show ?thesis by (simp add: GetLength_def split: option.splits)
next
  case (CGetValidData b)
  then show ?thesis by (simp add: GetValidData_def split: option.splits)
next
  case (CGetFullData b)
  then show ?thesis by (simp add: GetFullData_def split: option.splits)
next
  case (CRelease b)
  show ?thesis
  proof (cases "get_buf s b")
    case None
    then show ?thesis using CRelease by (simp add: Release_def cas_inUse_def)
  next
    case (Some B)
    then show ?thesis using CRelease
      by (cases "inUse B = 1"; cases "pool B")
         (simp_all add: Release_owned Release_not_owned length_pools_put set_buf_def)
  qed
qed

lemma length_pools_run:
  fixes s :: "'a::zero state"
  shows "length (pools s) \<le> length (pools (run cs s))"
proof (induction cs arbitrary: s)
  case Nil
  then show ?case by simp
next
  case (Cons c cs)
  then show ?case using length_pools_step[of s c] le_trans by fastforce
qed

subsection \<open>Stores reached from the empty one\<close>

lemma wfb_empty_run: "wf_basic (run cs (empty_state :: 'a::zero state))"
  unfolding empty_state_def by (rule wfb_reachable)

lemma wf_empty_run:
  "\<forall>c \<in> set cs. fits (empty_state :: 'a::zero state) c \<Longrightarrow>
   wf_store (run cs (empty_state :: 'a state))"
  unfolding empty_state_def by (rule wf_reachable)

section \<open>The claims\<close>

text \<open>Claim C1. In a store with the basic invariant (every store that calls can reach has
  it: \<open>wfb_empty_run\<close>), let \<open>Acquire()\<close> on a pool return a Buffer (so the pool is
  initialized and not released), let the holder call \<open>SetLength\<close> on it any number of
  times with any arguments, and then \<open>Release()\<close> it. The release returns without a
  panic, \<open>Available()\<close> is again what it was before the acquisition, and \<open>GetLength()\<close>
  of the released Buffer is 0.\<close>

theorem C1_acquire_release_roundtrip:
  fixes s :: "'a::zero state"
  assumes "wf_basic s" "Acquire p s = (Inr (Some b), s1)"
  shows "\<exists>s2 n. Release b (run (map (CSetLength b) ns) s1) = (Inr (), s2) \<and>
                Available p s = (Inr n, s) \<and> Available p s2 = (Inr n, s2) \<and>
                GetLength b s2 = (Inr 0, s2)"
proof -
  from assms obtain s2 n B2 where
    "Release b (run (map (CSetLength b) ns) s1) = (Inr (), s2)"
    "Available p s = (Inr n, s)" "Available p s2 = (Inr n, s2)"
    "get_buf s2 b = Some B2" "lengthB B2 = 0"
    by (rule Acquire_use_Release)
  then show ?thesis by (auto simp: GetLength_def)
qed

theorem C1_acquire_release_roundtrip_witness:
  "\<exists>s2 n. Release 1 (run (map (CSetLength 1) [7])
                       (snd (Acquire 0 (run [CNewPool, CInit 0 5 10, CAcquire 0]
                                            (empty_state :: int state))))) = (Inr (), s2) \<and>
          Available 0 (run [CNewPool, CInit 0 5 10, CAcquire 0] (empty_state :: int state)) =
            (Inr n, run [CNewPool, CInit 0 5 10, CAcquire 0] empty_state) \<and>
          Available 0 s2 = (Inr n, s2) \<and> GetLength 1 s2 = (Inr 0, s2)"
proof -
  let ?s = "run [CNewPool, CInit 0 5 10, CAcquire 0] (empty_state :: int state)"
  have w: "wf_basic ?s" by (rule wfb_empty_run)
  have a: "Acquire 0 ?s = (Inr (Some 1), snd (Acquire 0 ?s))" by code_simp
  show ?thesis by (rule C1_acquire_release_roundtrip[OF w a])
qed

text \<open>Claim C2 says that \<open>Init(count, size)\<close> returns nil for every \<open>count > 0\<close> and
  \<open>size > 0\<close>. \<open>Init\<close> hands both numbers to \<open>make\<close>, which panics beyond the bounds
  of the runtime: on the pool that \<open>NewPool\<close> returns, \<open>Init(2^62, 1)\<close> panics with
  "makechan: size out of range" and \<open>Init(1, 2^62)\<close> with "makeslice: len out of
  range" (here with the bounds of linux/amd64; \<open>2^62\<close> pointers or 8-byte elements
  overflow the address space of every 64-bit platform).\<close>

theorem C2_Init_out_of_range_counterexample:
  "fst (Init 0 (2 ^ 62) 1 (snd (NewPool (empty_state :: int state)))) =
     Inl (Panic ''makechan: size out of range'') \<and>
   fst (Init 0 1 (2 ^ 62) (snd (NewPool (empty_state :: int state)))) =
     Inl (Panic ''makeslice: len out of range'')"
  by code_simp

text \<open>Claim C2, amended. On a pool that exists and is not released, \<open>Init(count, size)\<close>
  with \<open>count > 0\<close> and \<open>size > 0\<close>, both within the bounds that \<open>make\<close> accepts,
  returns the nil error; afterwards \<open>Available()\<close> is \<open>count\<close>, and every Buffer queued
  in the free list has \<open>inUse = 0\<close>, valid length 0 and a data slice of capacity
  \<open>size\<close>.\<close>

theorem C2_Init_postcondition:
  fixes s :: "'a::zero state"
  assumes "get_pool s p = Some P" "isReleased P \<noteq> 1" "0 < count" "0 < sz"
    "count \<le> maxChan s" "sz \<le> maxSlice s"
  shows "\<exists>s' P' c.
           Init p count sz s = (Inr None, s') \<and>
           Available p s' = (Inr count, s') \<and>
           get_pool s' p = Some P' \<and> buffers P' = Some c \<and>
           (\<forall>b \<in> set (items c). \<exists>B. get_buf s' b = Some B \<and>
                inUse B = 0 \<and> lengthB B = 0 \<and> int (length (data B)) = sz)"
proof -
  let ?s' = "after_Init p count sz P s"
  let ?L = "length (bufs s)"
  let ?c = "\<lparr>items = [?L ..< ?L + nat count], ccap = nat count, closed = False\<rparr>"
  let ?P' = "P\<lparr>bufCount := count, bufSize := sz, buffers := Some ?c, isInitialized := True\<rparr>"
  have p: "p < length (pools s)" using assms(1) by (simp add: get_pool_Some)
  have 1: "Init p count sz s = (Inr None, ?s')" by (rule Init_ok[OF assms])
  have 2: "get_pool ?s' p = Some ?P'" using p by (simp add: get_pool_def after_Init_def)
  have 3: "Available p ?s' = (Inr count, ?s')"
    using assms(2,3) by (simp add: Available_def 2 chan_len_def)
  have 4: "\<exists>B. get_buf ?s' b = Some B \<and> inUse B = 0 \<and> lengthB B = 0 \<and> int (length (data B)) = sz"
    if "b \<in> set (items ?c)" for b
  proof -
    from that have "?L \<le> b" "b < ?L + nat count" by auto
    then have "get_buf ?s' b = Some (fresh_Buffer sz p)"
      by (simp add: get_buf_def after_Init_def nth_append)
    then show ?thesis using assms(4) by (simp add: fresh_Buffer_def)
  qed
  show ?thesis using 1 2 3 4 by (intro exI[of _ ?s'] exI[of _ ?P'] exI[of _ ?c]) simp
qed

theorem C2_Init_postcondition_witness:
  "\<exists>s' P' c.
     Init 0 2 3 (snd (NewPool (empty_state :: int state))) = (Inr None, s') \<and>
     Available 0 s' = (Inr 2, s') \<and>
     get_pool s' 0 = Some P' \<and> buffers P' = Some c \<and>
     (\<forall>b \<in> set (items c). \<exists>B. get_buf s' b = Some B \<and>
          inUse B = 0 \<and> lengthB B = 0 \<and> int (length (data B)) = 3)"
  by (rule C2_Init_postcondition[where P = "\<lparr>buffers = None, bufSize = 0, bufCount = 0,
          isInitialized = False, isReleased = 0\<rparr>"])
     (simp_all add: NewPool_def empty_state_def start_state_def get_pool_def)

text \<open>Claim C3 says that the valid length of a Buffer stays in \<open>[0, C]\<close> under every
  sequence of public calls, \<open>SetLength\<close> taking any integer. \<open>SetLength\<close> clamps its
  argument from above only. After \<open>NewPool\<close>, \<open>Init(1, 10)\<close>, \<open>Acquire\<close> and
  \<open>SetLength(-1)\<close> on the acquired Buffer, \<open>GetLength\<close> returns \<open>-1\<close>, and
  \<open>GetValidData\<close> panics on the slice expression \<open>b.data[:-1]\<close>. (While no
  \<open>SetLength\<close> gets a negative argument the range does hold: \<open>lens_ok_reachable\<close>.)\<close>

theorem C3_SetLength_negative:
  "fst (GetLength 0 (run [CNewPool, CInit 0 1 10, CAcquire 0, CSetLength 0 (- 1)]
                         (empty_state :: int state))) = Inr (- 1) \<and>
   fst (GetValidData 0 (run [CNewPool, CInit 0 1 10, CAcquire 0, CSetLength 0 (- 1)]
                         (empty_state :: int state))) = Inl (Panic ''slice bounds out of range'')"
  by code_simp

text \<open>Claim C4 says that \<open>Acquire\<close>, when the compare-and-swap on a dequeued Buffer
  fails, puts the Buffer back and retries instead of aborting. The Buffer is handed to
  \<open>put\<close>, which panics on a Buffer whose \<open>inUse\<close> is not 0 (lemma \<open>Acquire_in_use\<close>):
  the call aborts, and the Buffer is gone from the free list. The store below is built
  inside the package, as the package's own test of \<open>put\<close> does: \<open>Init(2, 10)\<close>, two
  \<open>Acquire\<close>, \<open>Release\<close> of Buffer 0, then \<open>pool.put\<close> of Buffer 0 again, which queues
  it twice. The next \<open>Acquire\<close> returns Buffer 0; the one after dequeues Buffer 0 a
  second time, now in use.\<close>

theorem C4_Acquire_retry_panics:
  "Acquire 0 (snd (Acquire 0 (snd (put 0 0
       (run [CNewPool, CInit 0 2 10, CAcquire 0, CAcquire 0, CRelease 0]
            (empty_state :: int state)))))) =
     (Inl (Panic ''Attempting to return a buffer that is still in use''),
      empty_state
        \<lparr>pools := [\<lparr>buffers = Some \<lparr>items = [], ccap = 2, closed = False\<rparr>,
                   bufSize = 10, bufCount = 2, isInitialized = True, isReleased = 0\<rparr>],
         bufs := [\<lparr>data = replicate 10 0, lengthB = 0, pool = Some 0, inUse = 1\<rparr>,
                  \<lparr>data = replicate 10 0, lengthB = 0, pool = Some 0, inUse = 1\<rparr>]\<rparr>)"
  by code_simp

text \<open>Claim C5 says that for every Buffer acquired from a pool the first \<open>Release()\<close>
  succeeds. It does not when the free list has been refilled in between: after
  \<open>Init(1, 10)\<close>, an \<open>Acquire\<close> that returns Buffer 0 and a \<open>Reset\<close>, the first
  \<open>Release\<close> of Buffer 0 panics on the full free list.\<close>

theorem C5_first_release_counterexample:
  "fst (Acquire 0 (run [CNewPool, CInit 0 1 10] (empty_state :: int state))) = Inr (Some 0) \<and>
   fst (Release 0 (run [CNewPool, CInit 0 1 10, CAcquire 0, CReset 0]
                       (empty_state :: int state))) =
     Inl (Panic ''Attempting to return a buffer to a full pool'')"
  by code_simp

text \<open>Claim C5, amended. In a store with the basic invariant, let \<open>Acquire()\<close> return a
  Buffer, and let any sequence \<open>cs1\<close> of calls follow that does not release it. The first
  \<open>Release()\<close> of the Buffer then returns without a panic or panics with "Attempting to
  return a buffer to a full pool"; it returns when \<open>cs1\<close> consists of \<open>SetLength\<close> calls
  on the Buffer only. After the first \<open>Release()\<close>, whichever way it ended, if no
  goroutine of \<open>BufferChan\<close> has been started, and after any further sequence \<open>cs2\<close> of
  calls in which no \<open>Acquire\<close> returns this Buffer and no \<open>BufferChan\<close> starts a
  goroutine, a second \<open>Release()\<close> of it panics with "Buffer already released or was
  never acquired" and changes nothing.\<close>

theorem C5_double_release_fatal:
  fixes s :: "'a::zero state"
  assumes "wf_basic s" "Acquire p s = (Inr (Some b), s1)" "CRelease b \<notin> set cs1"
    and "Release b (run cs1 s1) = (r, s2)"
  shows "(r = Inr () \<or> r = Inl (Panic ''Attempting to return a buffer to a full pool'')) \<and>
         ((\<exists>ns. cs1 = map (CSetLength b) ns) \<longrightarrow> r = Inr ()) \<and>
         (streams s2 = [] \<and> \<not> reacquired b cs2 s2 \<longrightarrow>
            Release b (run cs2 s2) =
              (Inl (Panic ''Buffer already released or was never acquired''), run cs2 s2))"
proof -
  from assms(1) have s1: "wf_basic s1 \<and> is_owned s1 b \<and> pool (bufs s1 ! b) = Some p \<and>
      p < length (pools s1)"
  proof (cases rule: Acquire_wf_cases[where p = p])
    case nil
    then show ?thesis using assms(2) by simp
  next
    case (none P)
    then show ?thesis using assms(2) by simp
  next
    case (some P c b' rest)
    have bb: "b' = b" using some(9) assms(2) by simp
    have e: "s1 = set_buf b ((bufs s ! b)\<lparr>inUse := 1\<rparr>)
                    (set_pool p (P\<lparr>buffers := Some (c\<lparr>items := rest\<rparr>)\<rparr>) s)"
      using some(9) assms(2) bb by simp
    have "wf_basic s1" using wfb_Acquire[OF assms(1), of p] assms(2) by simp
    then show ?thesis
      using some(1,6,8) bb
      by (simp add: e is_owned_def set_buf_def set_pool_def get_pool_Some)
  qed
  let ?u = "run cs1 s1"
  have u: "wf_basic ?u" "is_owned ?u b" "pool (bufs ?u ! b) = Some p" "p < length (pools ?u)"
    using s1 wfb_run[of s1 cs1] is_owned_run[of s1 b cs1] assms(3)
      length_pools_run[of s1 cs1]
    by auto
  from Release_owned_outcome[OF u] obtain r' s2' where
    o: "Release b ?u = (r', s2')"
       "r' = Inr () \<or> r' = Inl (Panic ''Attempting to return a buffer to a full pool'')"
       "is_free s2' b" "wf_basic s2'"
    by blast
  have rs: "r' = r" "s2' = s2" using o(1) assms(4) by simp_all
  have direct: "r = Inr ()" if "\<exists>ns. cs1 = map (CSetLength b) ns"
  proof -
    from that obtain ns where ns: "cs1 = map (CSetLength b) ns" by blast
    from assms(1,2) obtain s2'' where "Release b (run (map (CSetLength b) ns) s1) = (Inr (), s2'')"
      by (rule Acquire_use_Release[where ns = ns])
    then show ?thesis using assms(4) ns by simp
  qed
  have second: "Release b (run cs2 s2) =
          (Inl (Panic ''Buffer already released or was never acquired''), run cs2 s2)"
    if "\<not> reacquired b cs2 s2"
  proof -
    have "is_free (run cs2 s2) b"
      using is_free_run[of s2 b cs2] o(3,4) rs that by simp
    then have "get_buf (run cs2 s2) b = Some (bufs (run cs2 s2) ! b)"
      "inUse (bufs (run cs2 s2) ! b) \<noteq> 1"
      by (simp_all add: is_free_def get_buf_Some)
    then show ?thesis by (rule Release_not_owned)
  qed
  show ?thesis using o(2) rs direct second by blast
qed

theorem C5_double_release_fatal_witness:
  "fst (Release 0 (run [CSetLength 0 4]
          (snd (Acquire 0 (run [CNewPool, CInit 0 2 10] (empty_state :: int state)))))) =
     Inr () \<and>
   Release 0 (run [CAcquire 0, CReset 0]
     (snd (Release 0 (run [CSetLength 0 4]
          (snd (Acquire 0 (run [CNewPool, CInit 0 2 10] (empty_state :: int state)))))))) =
     (Inl (Panic ''Buffer already released or was never acquired''),
      run [CAcquire 0, CReset 0]
        (snd (Release 0 (run [CSetLength 0 4]
          (snd (Acquire 0 (run [CNewPool, CInit 0 2 10] (empty_state :: int state))))))))"
proof -
  let ?s = "run [CNewPool, CInit 0 2 10] (empty_state :: int state)"
  let ?s1 = "snd (Acquire 0 ?s)"
  let ?r = "fst (Release 0 (run [CSetLength 0 4] ?s1))"
  let ?s2 = "snd (Release 0 (run [CSetLength 0 4] ?s1))"
  have w: "wf_basic ?s" by (rule wfb_empty_run)
  have a: "Acquire 0 ?s = (Inr (Some 0), ?s1)" by code_simp
  have n: "CRelease 0 \<notin> set [CSetLength 0 4]" by simp
  have e: "Release 0 (run [CSetLength 0 4] ?s1) = (?r, ?s2)" by simp
  have m: "\<exists>ns. [CSetLength 0 4] = map (CSetLength 0) ns"
    by (rule exI[of _ "[4]"]) simp
  have q: "streams ?s2 = [] \<and> \<not> reacquired 0 [CAcquire 0, CReset 0] ?s2" by code_simp
  note T = C5_double_release_fatal[OF w a n e, of "[CAcquire 0, CReset 0]"]
  have 1: "?r = Inr ()" using T m by blast
  have 2: "Release 0 (run [CAcquire 0, CReset 0] ?s2) =
     (Inl (Panic ''Buffer already released or was never acquired''),
      run [CAcquire 0, CReset 0] ?s2)"
    using T q by blast
  show ?thesis using 1 2 by blast
qed

text \<open>Claim C6. In a well-formed store (\<open>wf_store\<close>; calls keep a store well-formed
  unless an \<open>Init\<close> panics in \<open>make\<close>: \<open>wf_run\<close>), take an initialized pool with \<open>bufCount = count\<close>
  from which \<open>Acquire()\<close> returns a Buffer. A \<open>Reset()\<close> of the pool then returns and
  leaves \<open>count\<close> Buffers in the free list, and a \<open>Release()\<close> of the Buffer acquired
  before panics with "Attempting to return a buffer to a full pool"; the free list is
  not changed by the failed release.\<close>

theorem C6_orphan_release_full_pool:
  fixes s :: "'a::zero state"
  assumes "wf_store s" "get_pool s p = Some P" "isInitialized P" "bufCount P = count"
    and "Acquire p s = (Inr (Some b), s1)"
  shows "\<exists>s2 s3. Reset p s1 = (Inr (), s2) \<and> Available p s2 = (Inr count, s2) \<and>
           Release b s2 = (Inl (Panic ''Attempting to return a buffer to a full pool''), s3) \<and>
           pools s3 = pools s2"
proof -
  from wf_storeD(1)[OF assms(1)] show ?thesis
  proof (cases rule: Acquire_wf_cases[where p = p])
    case nil
    then show ?thesis using assms(5) by simp
  next
    case (none P')
    then show ?thesis using assms(5) by simp
  next
    case (some P' c b' rest)
    have PP: "P' = P" using some(1) assms(2) by simp
    have bb: "b' = b" using some(9) assms(5) by simp
    let ?B1 = "(bufs s ! b)\<lparr>inUse := 1\<rparr>"
    let ?P1 = "P\<lparr>buffers := Some (c\<lparr>items := rest\<rparr>)\<rparr>"
    let ?c1 = "c\<lparr>items := rest\<rparr>"
    have s1: "s1 = set_buf b ?B1 (set_pool p ?P1 s)"
      using some(9) assms(5) bb PP by simp
    have p: "p < length (pools s)" "pools s ! p = P"
      using assms(2) by (auto simp: get_pool_Some)
    have b: "b < length (bufs s)" using some(6) bb by simp
    have ok: "chan_basic s p P" by (rule wfbD[OF wf_storeD(1)[OF assms(1)] assms(2)])
    have cB: "buffers P = Some c" using some(3) PP by simp
    have cp: "ccap c = nat count" "0 \<le> bufSize P" "bufSize P \<le> maxSlice s"
      using sizedD[OF wf_storeD(2)[OF assms(1)] assms(2,3)] cB assms(4) by auto
    have pos: "0 < count" using chan_basicD(1)[OF ok cB] some(4) cp(1) by auto
    have gp1: "get_pool s1 p = Some ?P1"
      using p by (simp add: s1 get_pool_def set_buf_def set_pool_def)
    let ?s2 = "after_Reset p ?P1 ?c1 s1"
    have rs: "Reset p s1 = (Inr (), ?s2)"
      by (rule Reset_ok[OF gp1])
         (use some(2,5) PP assms(3,4) cp in \<open>simp_all add: s1 set_buf_def set_pool_def\<close>)
    let ?c2 = "?c1\<lparr>items := [length (bufs s1) ..< length (bufs s1) + nat (bufCount ?P1)]\<rparr>"
    let ?P2 = "?P1\<lparr>buffers := Some ?c2\<rparr>"
    have p1: "p < length (pools s1)" using gp1 by (simp add: get_pool_Some)
    have gp2: "get_pool ?s2 p = Some ?P2"
      using p1 by (simp add: after_Reset_def get_pool_def)
    have av: "Available p ?s2 = (Inr count, ?s2)"
      using some(2) PP assms(4) pos by (simp add: Available_def gp2 chan_len_def)
    have gb2: "get_buf ?s2 b = Some ?B1"
      using b by (simp add: after_Reset_def s1 get_buf_def set_buf_def set_pool_def nth_append)
    let ?s3 = "set_buf b (?B1\<lparr>inUse := 0, lengthB := 0\<rparr>) ?s2"
    have rl: "Release b ?s2 = (Inl (Panic ''Attempting to return a buffer to a full pool''), ?s3)"
      by (rule Release_full[OF gp2 _ _ _ _ gb2, where c = ?c2])
         (use some(2,5,8) PP bb assms(4) cp in simp_all)
    have "pools ?s3 = pools ?s2" by (simp add: set_buf_def)
    then show ?thesis using rs av rl by blast
  qed
qed

theorem C6_orphan_release_full_pool_witness:
  "\<exists>s2 s3. Reset 0 (snd (Acquire 0 (run [CNewPool, CInit 0 2 10] (empty_state :: int state))))
              = (Inr (), s2) \<and>
           Available 0 s2 = (Inr 2, s2) \<and>
           Release 0 s2 = (Inl (Panic ''Attempting to return a buffer to a full pool''), s3) \<and>
           pools s3 = pools s2"
proof -
  let ?s = "run [CNewPool, CInit 0 2 10] (empty_state :: int state)"
  have w: "wf_store ?s" by (rule wf_empty_run) (simp add: empty_state_def start_state_def)
  have g: "get_pool ?s 0 =
      Some \<lparr>buffers = Some \<lparr>items = [0, 1], ccap = 2, closed = False\<rparr>,
            bufSize = 10, bufCount = 2, isInitialized = True, isReleased = 0\<rparr>"
    by code_simp
  have a: "Acquire 0 ?s = (Inr (Some 0), snd (Acquire 0 ?s))" by code_simp
  show ?thesis
    by (rule C6_orphan_release_full_pool[OF w g _ _ a]) simp_all
qed

text \<open>Claim C7. Take a pool that exists, with \<open>isReleased\<close> 0 or 1 (as in every
  well-formed store), call \<open>Release()\<close> on it (whether or not that call panics), and
  then make any sequence \<open>cs\<close> of calls. In the store reached, \<open>Acquire()\<close> on the pool
  returns \<open>(nil, false)\<close>, \<open>BufferChan()\<close> returns nil, \<open>Available()\<close> returns 0, and
  \<open>Reset()\<close> and \<open>Release()\<close> return without a panic and change nothing.\<close>

theorem C7_released_pool_inert:
  fixes s0 :: "'a::zero state"
  assumes "get_pool s0 p = Some P0" "isReleased P0 = 0 \<or> isReleased P0 = 1"
    and "s = run cs (snd (Pool_Release p s0))"
  shows "Acquire p s = (Inr None, s) \<and> BufferChan p s = (Inr None, s) \<and>
         Available p s = (Inr 0, s) \<and> Reset p s = (Inr (), s) \<and>
         Pool_Release p s = (Inr (), s)"
proof -
  have "released (snd (Pool_Release p s0)) p"
    by (rule released_Pool_Release[OF assms(1,2)])
  then have "released s p" unfolding assms(3) by (rule released_run)
  then show ?thesis by (simp add: released_ops)
qed

theorem C7_released_pool_inert_witness:
  "let s = run [CInit 0 5 10, CAcquire 0, CReset 0, CRelease 0, CPoolRelease 0, CNewPool]
             (snd (Pool_Release 0 (run [CNewPool, CInit 0 5 10] (empty_state :: int state))))
   in Acquire 0 s = (Inr None, s) \<and> BufferChan 0 s = (Inr None, s) \<and>
      Available 0 s = (Inr 0, s) \<and> Reset 0 s = (Inr (), s) \<and>
      Pool_Release 0 s = (Inr (), s)"
proof -
  have g: "get_pool (run [CNewPool, CInit 0 5 10] (empty_state :: int state)) 0 =
      Some \<lparr>buffers = Some \<lparr>items = [0, 1, 2, 3, 4], ccap = 5, closed = False\<rparr>,
            bufSize = 10, bufCount = 5, isInitialized = True, isReleased = 0\<rparr>"
    by code_simp
  show ?thesis
    unfolding Let_def
    by (rule C7_released_pool_inert[OF g _ refl]) simp
qed

text \<open>Claim C8 says that the first \<open>Release()\<close> of a pool completes without aborting
  from every pool state, also for a pool that was never initialized. On the pool that
  \<open>NewPool\<close> returns, the channel is nil: the draining loop does nothing and
  \<open>close(p.buffers)\<close> panics. The pool is left marked released. (On a pool with a
  channel the call does complete: \<open>Pool_Release_open_chan\<close>, \<open>Pool_Release_again\<close>.)\<close>

theorem C8_Release_uninitialized_panics:
  "Pool_Release 0 (snd (NewPool (empty_state :: int state))) =
     (Inl (Panic ''close of nil channel''),
      empty_state
        \<lparr>pools := [\<lparr>buffers = None, bufSize = 0, bufCount = 0, isInitialized = False,
                   isReleased = 1\<rparr>]\<rparr>)"
  by code_simp

text \<open>Claim C9. On a pool that exists, \<open>Init(count, size)\<close> with \<open>count <= 0\<close> or
  \<open>size <= 0\<close> returns an error value and leaves the store as it was; the error is
  "invalid buffer count or size" unless the pool is released, when it is "pool has been
  released". On the pool \<open>q\<close> that \<open>NewPool\<close> has just made, \<open>Available()\<close> is 0 before
  and after such an \<open>Init\<close>. On a released pool, after any sequence \<open>cs\<close> of calls,
  \<open>Init\<close> with any arguments returns "pool has been released" and changes nothing.\<close>

theorem C9_Init_error_contract:
  fixes s s0 :: "'a::zero state"
  assumes "get_pool s p = Some P" and "NewPool s0 = (Inr q, s1)"
  shows "(count \<le> 0 \<or> sz \<le> 0 \<longrightarrow>
            Init p count sz s =
              (Inr (Some (if isReleased P = 1 then ''pool has been released''
                          else ''invalid buffer count or size'')), s)) \<and>
         (count \<le> 0 \<or> sz \<le> 0 \<longrightarrow>
            Available q s1 = (Inr 0, s1) \<and>
            Init q count sz s1 = (Inr (Some ''invalid buffer count or size''), s1) \<and>
            Available q (snd (Init q count sz s1)) = (Inr 0, s1)) \<and>
         (isReleased P = 1 \<longrightarrow>
            Init p count sz (run cs s) = (Inr (Some ''pool has been released''), run cs s))"
proof -
  have a: "Init p count sz s =
              (Inr (Some (if isReleased P = 1 then ''pool has been released''
                          else ''invalid buffer count or size'')), s)"
    if "count \<le> 0 \<or> sz \<le> 0"
    using that assms(1) by (auto simp: Init_def)
  have g: "get_pool s1 q = Some \<lparr>buffers = None, bufSize = 0, bufCount = 0,
                                 isInitialized = False, isReleased = 0\<rparr>"
    using assms(2) by (auto simp: NewPool_def get_pool_def)
  have b1: "Available q s1 = (Inr 0, s1)"
    using g by (simp add: Available_def chan_len_def)
  have b2: "Init q count sz s1 = (Inr (Some ''invalid buffer count or size''), s1)"
    if "count \<le> 0 \<or> sz \<le> 0"
    using that g by (auto simp: Init_def)
  have c: "Init p count sz (run cs s) = (Inr (Some ''pool has been released''), run cs s)"
    if "isReleased P = 1"
  proof -
    have "released s p" using that assms(1) by (simp add: released_def)
    then have "released (run cs s) p" by (rule released_run)
    then show ?thesis by (rule released_ops(6))
  qed
  show ?thesis using a b1 b2 c by simp
qed

theorem C9_Init_error_contract_witness:
  "Init 0 0 10 (snd (NewPool (empty_state :: int state))) =
     (Inr (Some ''invalid buffer count or size''), snd (NewPool empty_state)) \<and>
   Available 0 (snd (Init 0 0 10 (snd (NewPool (empty_state :: int state))))) =
     (Inr 0, snd (NewPool empty_state)) \<and>
   Init 0 5 10 (run [CReset 0, CAcquire 0]
                  (run [CNewPool, CInit 0 5 10, CPoolRelease 0] (empty_state :: int state))) =
     (Inr (Some ''pool has been released''),
      run [CReset 0, CAcquire 0]
        (run [CNewPool, CInit 0 5 10, CPoolRelease 0] (empty_state :: int state)))"
proof -
  have g1: "get_pool (snd (NewPool (empty_state :: int state))) 0 =
      Some \<lparr>buffers = None, bufSize = 0, bufCount = 0, isInitialized = False, isReleased = 0\<rparr>"
    by code_simp
  have g2: "get_pool (run [CNewPool, CInit 0 5 10, CPoolRelease 0] (empty_state :: int state)) 0 =
      Some \<lparr>buffers = Some \<lparr>items = [], ccap = 5, closed = True\<rparr>,
            bufSize = 0, bufCount = 0, isInitialized = False, isReleased = 1\<rparr>"
    by code_simp
  have n: "NewPool (empty_state :: int state) = (Inr 0, snd (NewPool empty_state))"
    by code_simp
  have le: "(0::int) \<le> 0 \<or> (10::int) \<le> 0" by simp
  note A = C9_Init_error_contract[OF g1 n, of 0 10 "[]"]
  note B = C9_Init_error_contract[OF g2 n, of 5 10 "[CReset 0, CAcquire 0]"]
  have 1: "Init 0 0 10 (snd (NewPool (empty_state :: int state))) =
     (Inr (Some ''invalid buffer count or size''), snd (NewPool empty_state))"
    using A le by blast
  have 2: "Available 0 (snd (Init 0 0 10 (snd (NewPool (empty_state :: int state))))) =
     (Inr 0, snd (NewPool empty_state))"
    using A le by blast
  have 3: "Init 0 5 10 (run [CReset 0, CAcquire 0]
                  (run [CNewPool, CInit 0 5 10, CPoolRelease 0] (empty_state :: int state))) =
     (Inr (Some ''pool has been released''),
      run [CReset 0, CAcquire 0]
        (run [CNewPool, CInit 0 5 10, CPoolRelease 0] (empty_state :: int state)))"
    using B by (simp del: run.simps)
  show ?thesis using 1 2 3 by blast
qed

text \<open>Claim C10 says that after a second \<open>Init\<close> the Buffers acquired before it are
  never reclaimed by the new free list. \<open>Init\<close> does leave them out of the new list, but
  \<open>Release\<close> hands a Buffer to the channel its pool has now: after \<open>Init(2, 10)\<close>,
  an \<open>Acquire\<close> that returns Buffer 0, \<open>Init(2, 20)\<close> and one more \<open>Acquire\<close>, the
  \<open>Release\<close> of Buffer 0 returns and the new free list holds Buffer 0.\<close>

theorem C10_orphan_reclaimed_counterexample:
  "fst (Acquire 0 (run [CNewPool, CInit 0 2 10] (empty_state :: int state))) = Inr (Some 0) \<and>
   fst (Init 0 2 20 (run [CNewPool, CInit 0 2 10, CAcquire 0] (empty_state :: int state))) =
     Inr None \<and>
   fst (Release 0 (run [CNewPool, CInit 0 2 10, CAcquire 0, CInit 0 2 20, CAcquire 0]
                       (empty_state :: int state))) = Inr () \<and>
   map buffers (pools (run [CNewPool, CInit 0 2 10, CAcquire 0, CInit 0 2 20, CAcquire 0,
                            CRelease 0] (empty_state :: int state))) =
     [Some \<lparr>items = [3, 0], ccap = 2, closed = False\<rparr>]"
  by code_simp

text \<open>Claim C10, amended. On a pool that exists and is not released (in particular one
  that is already initialized), \<open>Init(count, size)\<close> with \<open>count > 0\<close> and \<open>size > 0\<close>,
  both within the bounds that \<open>make\<close> accepts, returns the nil error. Afterwards the
  pool is initialized with \<open>bufCount = count\<close> and \<open>bufSize = size\<close>; its channel is a
  new open one of capacity \<open>count\<close> that holds exactly \<open>count\<close> Buffers, each allocated
  by this call (its address was not in use before) and each the fresh Buffer value;
  \<open>Available()\<close> is \<open>count\<close>; and no Buffer that existed before the call is in the new
  free list or was changed by the call. (Beyond the bounds \<open>Init\<close> panics:
  \<open>Init_makechan_panic\<close>, \<open>Init_makeslice_panic\<close>.)\<close>

theorem C10_reinit:
  fixes s :: "'a::zero state"
  assumes "get_pool s p = Some P" "isReleased P \<noteq> 1" "0 < count" "0 < sz"
    "count \<le> maxChan s" "sz \<le> maxSlice s"
  shows "\<exists>s' P' c.
           Init p count sz s = (Inr None, s') \<and>
           get_pool s' p = Some P' \<and> bufCount P' = count \<and> bufSize P' = sz \<and>
           isInitialized P' \<and> buffers P' = Some c \<and> ccap c = nat count \<and> \<not> closed c \<and>
           items c = [length (bufs s) ..< length (bufs s) + nat count] \<and>
           Available p s' = (Inr count, s') \<and>
           (\<forall>b \<in> set (items c). get_buf s b = None \<and> get_buf s' b = Some (fresh_Buffer sz p)) \<and>
           (\<forall>b. b < length (bufs s) \<longrightarrow> b \<notin> set (items c) \<and> get_buf s' b = get_buf s b)"
proof -
  let ?s' = "after_Init p count sz P s"
  let ?L = "length (bufs s)"
  let ?c = "\<lparr>items = [?L ..< ?L + nat count], ccap = nat count, closed = False\<rparr>"
  let ?P' = "P\<lparr>bufCount := count, bufSize := sz, buffers := Some ?c, isInitialized := True\<rparr>"
  have p: "p < length (pools s)" using assms(1) by (simp add: get_pool_Some)
  have 1: "Init p count sz s = (Inr None, ?s')" by (rule Init_ok[OF assms])
  have 2: "get_pool ?s' p = Some ?P'" using p by (simp add: get_pool_def after_Init_def)
  have 3: "Available p ?s' = (Inr count, ?s')"
    using assms(2,3) by (simp add: Available_def 2 chan_len_def)
  have 4: "get_buf s b = None \<and> get_buf ?s' b = Some (fresh_Buffer sz p)"
    if "b \<in> set (items ?c)" for b
    using that by (auto simp: get_buf_def after_Init_def nth_append)
  have 5: "b \<notin> set (items ?c) \<and> get_buf ?s' b = get_buf s b" if "b < ?L" for b
    using that by (auto simp: get_buf_def after_Init_def nth_append)
  show ?thesis
    using 1 2 3 4 5 by (intro exI[of _ ?s'] exI[of _ ?P'] exI[of _ ?c]) simp
qed

theorem C10_reinit_witness:
  "\<exists>s' P' c.
     Init 0 3 20 (run [CNewPool, CInit 0 2 10, CAcquire 0] (empty_state :: int state)) =
       (Inr None, s') \<and>
     get_pool s' 0 = Some P' \<and> bufCount P' = 3 \<and> bufSize P' = 20 \<and>
     isInitialized P' \<and> buffers P' = Some c \<and> ccap c = 3 \<and> \<not> closed c \<and>
     items c = [2, 3, 4] \<and> Available 0 s' = (Inr 3, s') \<and>
     get_buf s' 0 = get_buf (run [CNewPool, CInit 0 2 10, CAcquire 0] (empty_state :: int state)) 0"
proof -
  let ?s = "run [CNewPool, CInit 0 2 10, CAcquire 0] (empty_state :: int state)"
  have g: "get_pool ?s 0 =
      Some \<lparr>buffers = Some \<lparr>items = [1], ccap = 2, closed = False\<rparr>,
            bufSize = 10, bufCount = 2, isInitialized = True, isReleased = 0\<rparr>"
    by code_simp
  have l: "length (bufs ?s) = 2" by code_simp
  have m: "(3::int) \<le> maxChan ?s" "(20::int) \<le> maxSlice ?s" by code_simp+
  from C10_reinit[OF g _ _ _ m] obtain s' P' c where
    h: "Init 0 3 20 ?s = (Inr None, s')" "get_pool s' 0 = Some P'" "bufCount P' = 3"
      "bufSize P' = 20" "isInitialized P'" "buffers P' = Some c" "ccap c = nat 3" "\<not> closed c"
      "items c = [length (bufs ?s) ..< length (bufs ?s) + nat 3]" "Available 0 s' = (Inr 3, s')"
      "\<forall>b. b < length (bufs ?s) \<longrightarrow> b \<notin> set (items c) \<and> get_buf s' b = get_buf ?s b"
    by (auto simp del: run.simps)
  have i: "items c = [2, 3, 4]" unfolding h(9) l by (simp add: upt_rec)
  have o: "get_buf s' 0 = get_buf ?s 0" using h(11) l by simp
  show ?thesis using h(1-8,10) i o by (auto simp del: run.simps)
qed

end
